theory Spec2Isabelle
  imports Main
begin

section \<open>The mbjs Application: module lifecycle orchestrator\<close>

text \<open>
  The development embeds the class \<open>Application\<close> of \<open>lib/mbjs-module/index.js\<close>
  (the variant whose main-app key is \<open>mbjs-app\<close>), its interrupt handler
  \<open>signalInterrupt\<close> included. The script \<open>lib/bin.js\<close> registers a handler of the
  same two lines, but it declares \<open>pkg\<close> twice and does not load, so that handler
  never runs. The repository also holds an earlier draft of the class (main-app key
  \<open>app\<close>): its \<open>require\<close> and \<open>init\<close> assert \<open>typeof sec === 'sec'\<close> and its
  \<open>module\<close> calls \<open>Array.prototype.contains\<close>, so none of the three gets past its
  first line for any module name; its \<open>throwError\<close>, timer callback and
  \<open>clearTimeout\<close> calls read the same as the ones modelled here.
\<close>

subsection \<open>JavaScript values\<close>

datatype err_kind = PlainError | TypeError

text \<open>
  \<open>JErr kind message code\<close> is an error object: the constructor that made it, its
  \<open>message\<close> and its \<open>code\<close> property (\<open>None\<close> while unset).
\<close>

datatype jsval =
    JUndefined
  | JBool bool
  | JNum int
  | JStr string
  | JObj "(string \<times> jsval) list"
  | JErr err_kind string "string option"

text \<open>
  A settled promise is fulfilled with a value or rejected with a reason; the entries of a
  \<open>Promise.allSettled\<close> result carry the same two cases under \<open>status\<close>.
  A promise handed out by a module is described by when it settles, counted in
  milliseconds from the call that returned it, and how; \<open>None\<close> is a promise that never
  settles.
\<close>

datatype 'a settled = FulfilledWith 'a | RejectedWith jsval

type_synonym 'a future = "(nat \<times> 'a settled) option"

datatype 'a promise = Pending | Settled "'a settled"

fun status :: "'a settled \<Rightarrow> string" where
  "status (FulfilledWith v) = ''fulfilled''"
| "status (RejectedWith e) = ''rejected''"

text \<open>What a call of a module's function does: it throws, or returns a value or a promise.\<close>

datatype retval = Plain jsval | Promise "jsval future"

datatype result = Throws jsval | Returns retval

type_synonym jsfun = "jsval list \<Rightarrow> result"

text \<open>
  A module instance as the orchestrator reads it: the numeric attribute \<open>stopTimeout\<close>
  (\<open>None\<close> when undefined) and the properties whose \<open>typeof\<close> is \<open>'function'\<close>.
  The functions of a module return or throw; what else they do is outside the model.
\<close>

record module_obj =
  stopTimeout :: "nat option"
  methods :: "(string \<times> jsfun) list"

text \<open>
  An entry of the instance registry is a constructed module or the Application itself
  (\<open>this.allModules[sec] = this\<close>).
\<close>

datatype inst = AppSelf | Mod module_obj

text \<open>A module class: \<open>new C(config, app)\<close> throws or yields the instance.\<close>

type_synonym modclass = "jsval \<Rightarrow> jsval + module_obj"

subsection \<open>Strings\<close>

text \<open>
  \<open>String.prototype.split\<close> with a one-character separator and
  \<open>Array.prototype.join\<close>. The first case of the inner \<open>case\<close> is never taken:
  \<open>split\<close> returns at least one piece.
\<close>

fun split :: "char \<Rightarrow> string \<Rightarrow> string list" where
  "split sep [] = [[]]"
| "split sep (c # cs) =
     (if c = sep then [] # split sep cs
      else (case split sep cs of [] \<Rightarrow> [[c]] | p # ps \<Rightarrow> (c # p) # ps))"

fun join :: "string \<Rightarrow> string list \<Rightarrow> string" where
  "join sep [] = []"
| "join sep [p] = p"
| "join sep (p # q # ps) = p @ sep @ join sep (q # ps)"

text \<open>
  \<open>toUpperCase\<close> on ASCII text, which is what a package name is: the letters
  \<open>a\<close> to \<open>z\<close> move to \<open>A\<close> to \<open>Z\<close>, every other character stays.
\<close>

definition upper_char :: "char \<Rightarrow> char" where
  "upper_char c =
     (let n = (of_char c :: nat) in if 97 \<le> n \<and> n \<le> 122 then char_of (n - 32) else c)"

definition toUpperCase :: "string \<Rightarrow> string" where
  "toUpperCase s = map upper_char s"

text \<open>Decimal digits of a number, as a template literal prints it.\<close>

fun string_of_nat :: "nat \<Rightarrow> string" where
  "string_of_nat n =
     (if n < 10 then [char_of (48 + n)]
      else string_of_nat (n div 10) @ [char_of (48 + n mod 10)])"

declare string_of_nat.simps [simp del]

subsection \<open>The Application object\<close>

definition mainAppName :: string where
  "mainAppName = ''mbjs-app''"

text \<open>
  The fields the constructor sets, but for the bound listener \<open>signalIntFunc\<close>,
  whose registrations the process counts. \<open>config\<close> is the configuration object with its keys
  in insertion order (\<open>Object.keys\<close>), own keys only, and \<open>configProto\<close> is
  the prototype that an assignment to its \<open>__proto__\<close> has given it (\<open>None\<close> while
  it is still \<open>Object.prototype\<close>). For the plain lookups \<open>obj[sec]\<close> of the
  lifecycle functions, module names are taken outside the property names of a prototype,
  so that they find own properties only. \<open>selfMethods\<close> stands for the Application's
  own function-valued properties as a caller reaches them through a registry entry bound
  to \<open>this\<close>.
\<close>

record app =
  config :: "(string \<times> jsval) list"
  configProto :: "jsval option"
  srcdir :: string
  appConfig :: jsval
  mainModuleCodeUpper :: string
  modules :: "string list"
  AllModules :: "string \<rightharpoonup> modclass"
  allModules :: "string \<rightharpoonup> inst"
  selfMethods :: "(string \<times> jsfun) list"

text \<open>
  \<open>config[mainAppName].name.split('-').join('_').toUpperCase()\<close>: reading
  \<open>name\<close> of a missing entry, or \<open>split\<close> of something that is not a string, is a
  TypeError.
\<close>

definition name_of_main :: "(string \<times> jsval) list \<Rightarrow> jsval + string" where
  "name_of_main cfg =
     (case map_of cfg mainAppName of
        Some (JObj props) \<Rightarrow>
          (case map_of props ''name'' of
             Some (JStr s) \<Rightarrow> Inr s
           | _ \<Rightarrow> Inl (JErr TypeError ''split is not a function'' None))
      | _ \<Rightarrow> Inl (JErr TypeError ''Cannot read properties of undefined'' None))"

definition Application :: "(string \<times> jsval) list \<Rightarrow> string \<Rightarrow> (string \<times> jsfun) list \<Rightarrow> jsval + app" where
  "Application cfg dir self =
     (case name_of_main cfg of
        Inl e \<Rightarrow> Inl e
      | Inr nm \<Rightarrow>
          Inr \<lparr> config = cfg,
                configProto = None,
                srcdir = dir,
                appConfig = (case map_of cfg mainAppName of Some c \<Rightarrow> c | None \<Rightarrow> JUndefined),
                mainModuleCodeUpper = toUpperCase (join ''_'' (split (CHR ''-'') nm)),
                modules = map fst cfg,
                AllModules = Map.empty,
                allModules = Map.empty,
                selfMethods = self \<rparr>)"

text \<open>
  \<open>throwError(errCode, msg = 'Error', justReturn = false)\<close>: \<open>Inl\<close> is the error
  thrown, \<open>Inr\<close> the error returned.
\<close>

definition throwError :: "app \<Rightarrow> string \<Rightarrow> string \<Rightarrow> bool \<Rightarrow> jsval + jsval" where
  "throwError a errCode msg justReturn =
     (let er = JErr PlainError msg (Some (mainModuleCodeUpper a @ ''_'' @ errCode))
      in if justReturn then Inr er else Inl er)"

text \<open>The spec's words for the prefix: hyphens become underscores, then upper case.\<close>

definition code_prefix_spec :: "string \<Rightarrow> string" where
  "code_prefix_spec nm = toUpperCase (map (\<lambda>c. if c = CHR ''-'' then CHR ''_'' else c) nm)"

subsection \<open>Exit disposition of the interrupt handler\<close>

text \<open>
  \<open>results.find(pm => pm.status !== 'fulfilled')\<close> is the first entry that is not
  fulfilled, or undefined; \<open>process.exit(successExit ? 0 : 1)\<close> tests its truthiness,
  and an entry is an object, hence truthy.
\<close>

definition successExit :: "jsval settled list \<Rightarrow> jsval settled option" where
  "successExit results = find (\<lambda>pm. status pm \<noteq> ''fulfilled'') results"

definition exit_code :: "jsval settled list \<Rightarrow> nat" where
  "exit_code results = (case successExit results of Some pm \<Rightarrow> 0 | None \<Rightarrow> 1)"

subsection \<open>require and init\<close>

text \<open>
  \<open>require(modules, conf = {})\<close>. The loader stands for Node's
  \<open>require(resolve(this.srcdir, sec))\<close>: it yields the module's class or throws.
  A throw inside \<open>forEach\<close> ends the loop and keeps what was written before it, so
  each function returns the error, if any, next to the Application as it then is.
  Names are strings by their type, which is what the assertions check.

  \<open>this.config[sec] = conf\<close> adds the own key \<open>sec\<close>, except for the name
  \<open>__proto__\<close>: that assignment runs the setter of \<open>Object.prototype\<close>, which
  makes an object \<open>conf\<close> the prototype of the configuration, ignores any other value,
  and adds no own key, so that \<open>hasOwnProperty\<close> stays false for the name. The
  assignment \<open>this.AllModules[sec] = ...\<close> for that name likewise sets a prototype;
  the lookup \<open>this.AllModules[sec]\<close> then reads it back, which is what the class
  registry of the model records.
\<close>

type_synonym loader = "string \<Rightarrow> string \<Rightarrow> jsval + modclass"

fun is_object :: "jsval \<Rightarrow> bool" where
  "is_object (JObj props) = True"
| "is_object (JErr k m c) = True"
| "is_object v = False"

definition require_one :: "loader \<Rightarrow> jsval \<Rightarrow> app \<Rightarrow> string \<Rightarrow> jsval option \<times> app" where
  "require_one load conf a sec =
     (let a1 = (if map_of (config a) sec = None
                then (if sec = ''__proto__''
                      then a\<lparr>configProto := (if is_object conf then Some conf else configProto a),
                             modules := modules a @ [sec]\<rparr>
                      else a\<lparr>config := config a @ [(sec, conf)], modules := modules a @ [sec]\<rparr>)
                else a)
      in case load (srcdir a1) sec of
           Inl e \<Rightarrow> (Some e, a1)
         | Inr c \<Rightarrow> (None, a1\<lparr>AllModules := (AllModules a1)(sec \<mapsto> c)\<rparr>))"

fun require_each :: "loader \<Rightarrow> jsval \<Rightarrow> string list \<Rightarrow> app \<Rightarrow> jsval option \<times> app" where
  "require_each load conf [] a = (None, a)"
| "require_each load conf (sec # rest) a =
     (case require_one load conf a sec of
        (Some e, a') \<Rightarrow> (Some e, a')
      | (None, a') \<Rightarrow> require_each load conf rest a')"

text \<open>
  \<open>(modules || this.modules)\<close>: an array, also an empty one, is truthy. \<open>forEach\<close>
  visits the elements the array had when the loop began.
\<close>

definition require :: "loader \<Rightarrow> app \<Rightarrow> string list option \<Rightarrow> jsval \<Rightarrow> jsval option \<times> app" where
  "require load a mods conf =
     require_each load conf (case mods of Some ms \<Rightarrow> ms | None \<Rightarrow> modules a) a"

definition config_of :: "app \<Rightarrow> string \<Rightarrow> jsval" where
  "config_of a sec = (case map_of (config a) sec of Some c \<Rightarrow> c | None \<Rightarrow> JUndefined)"

definition init_one :: "app \<Rightarrow> string \<Rightarrow> jsval option \<times> app" where
  "init_one a sec =
     (if sec = mainAppName then (None, a\<lparr>allModules := (allModules a)(sec \<mapsto> AppSelf)\<rparr>)
      else (case AllModules a sec of
              None \<Rightarrow> (Some (JErr TypeError ''this.AllModules[sec] is not a constructor'' None), a)
            | Some C \<Rightarrow>
                (case C (config_of a sec) of
                   Inl e \<Rightarrow> (Some e, a)
                 | Inr m \<Rightarrow> (None, a\<lparr>allModules := (allModules a)(sec \<mapsto> Mod m)\<rparr>))))"

fun init_each :: "string list \<Rightarrow> app \<Rightarrow> jsval option \<times> app" where
  "init_each [] a = (None, a)"
| "init_each (sec # rest) a =
     (case init_one a sec of
        (Some e, a') \<Rightarrow> (Some e, a')
      | (None, a') \<Rightarrow> init_each rest a')"

definition init :: "app \<Rightarrow> string list option \<Rightarrow> jsval option \<times> app" where
  "init a mods = init_each (case mods of Some ms \<Rightarrow> ms | None \<Rightarrow> modules a) a"

subsection \<open>Reading an instance\<close>

definition obj_of :: "app \<Rightarrow> inst \<Rightarrow> module_obj" where
  "obj_of a i =
     (case i of AppSelf \<Rightarrow> \<lparr>stopTimeout = None, methods = selfMethods a\<rparr> | Mod m \<Rightarrow> m)"

text \<open>\<open>method_of a i f\<close> is \<open>Some g\<close> when \<open>typeof i[f] === 'function'\<close>.\<close>

definition method_of :: "app \<Rightarrow> inst \<Rightarrow> string \<Rightarrow> jsfun option" where
  "method_of a i f = map_of (methods (obj_of a i)) f"

subsection \<open>Named dispatch\<close>

datatype target = Single string | Batch "string list"

datatype dispatched = One retval | Many "retval list"

text \<open>
  The body of \<open>nn.forEach\<close> in \<open>module(name, func, ...params)\<close>, with the array
  \<open>results\<close> passed along. \<open>throwError\<close> is called with its default
  \<open>justReturn = false\<close>; the branches for its returning are the code that follows the
  call in the source.
\<close>

fun module_each :: "app \<Rightarrow> bool \<Rightarrow> string \<Rightarrow> jsval list \<Rightarrow> string list \<Rightarrow> retval list \<Rightarrow> jsval + retval list" where
  "module_each a isAr func params [] results = Inr results"
| "module_each a isAr func params (sec # rest) results =
     (case allModules a sec of
        None \<Rightarrow>
          (case throwError a ''MODULE_NOT_FOUND'' ''Error'' False of
             Inl e \<Rightarrow> Inl e
           | Inr v \<Rightarrow> Inl (JErr TypeError ''Cannot read properties of undefined'' None))
      | Some i \<Rightarrow>
          (case method_of a i func of
             Some f \<Rightarrow>
               (case f params of
                  Throws e \<Rightarrow> Inl e
                | Returns r \<Rightarrow> module_each a isAr func params rest (results @ [r]))
           | None \<Rightarrow>
               if \<not> isAr then
                 (case throwError a ''MODULE_FUNCTION_NOT_FOUND'' ''Error'' False of
                    Inl e \<Rightarrow> Inl e
                  | Inr v \<Rightarrow> module_each a isAr func params rest results)
               else module_each a isAr func params rest results))"

text \<open>\<open>return isAr ? results : results.pop()\<close>; \<open>pop\<close> of an empty array is undefined.\<close>

definition module :: "app \<Rightarrow> target \<Rightarrow> string \<Rightarrow> jsval list \<Rightarrow> jsval + dispatched" where
  "module a name func params =
     (case name of
        Single n \<Rightarrow>
          (case module_each a False func params [n] [] of
             Inl e \<Rightarrow> Inl e
           | Inr results \<Rightarrow>
               Inr (One (if results = [] then Plain JUndefined else last results)))
      | Batch ns \<Rightarrow>
          (case module_each a True func params ns [] of
             Inl e \<Rightarrow> Inl e
           | Inr results \<Rightarrow> Inr (Many results)))"

subsection \<open>Promise.all and the start fan-out\<close>

text \<open>\<open>Promise.resolve\<close> of a returned value: a promise stays, a value is fulfilled at once.\<close>

fun as_future :: "retval \<Rightarrow> jsval future" where
  "as_future (Plain v) = Some (0, FulfilledWith v)"
| "as_future (Promise f) = f"

text \<open>
  The rejection \<open>Promise.all\<close> reports is the earliest one; of two at the same
  millisecond the model takes the one earlier in the array.
\<close>

fun first_rejection :: "'a future list \<Rightarrow> (nat \<times> jsval) option" where
  "first_rejection [] = None"
| "first_rejection (None # fs) = first_rejection fs"
| "first_rejection (Some (t, FulfilledWith v) # fs) = first_rejection fs"
| "first_rejection (Some (t, RejectedWith e) # fs) =
     (case first_rejection fs of
        None \<Rightarrow> Some (t, e)
      | Some (t', e') \<Rightarrow> if t \<le> t' then Some (t, e) else Some (t', e'))"

text \<open>
  When every input is fulfilled: the time of the last one and the values in input
  order. \<open>None\<close> when some input is not fulfilled.
\<close>

fun all_fulfilled :: "'a future list \<Rightarrow> (nat \<times> 'a list) option" where
  "all_fulfilled [] = Some (0, [])"
| "all_fulfilled (Some (t, FulfilledWith v) # fs) =
     (case all_fulfilled fs of None \<Rightarrow> None | Some (t', vs) \<Rightarrow> Some (max t t', v # vs))"
| "all_fulfilled (f # fs) = None"

definition Promise_all :: "'a future list \<Rightarrow> 'a list future" where
  "Promise_all fs =
     (case first_rejection fs of
        Some (t, e) \<Rightarrow> Some (t, RejectedWith e)
      | None \<Rightarrow>
          (case all_fulfilled fs of
             Some (t, vs) \<Rightarrow> Some (t, FulfilledWith vs)
           | None \<Rightarrow> None))"

text \<open>
  \<open>_start(modules)\<close>: the \<open>filter\<close> pass runs over the whole list before the
  \<open>map\<close> pass calls any \<open>start()\<close>. Reading \<open>start\<close> of an unregistered name is
  a TypeError.
\<close>

fun start_filter :: "app \<Rightarrow> string list \<Rightarrow> jsval + string list" where
  "start_filter a [] = Inr []"
| "start_filter a (sec # rest) =
     (if sec \<noteq> mainAppName then
        (case allModules a sec of
           None \<Rightarrow> Inl (JErr TypeError ''Cannot read properties of undefined'' None)
         | Some i \<Rightarrow>
             (case start_filter a rest of
                Inl e \<Rightarrow> Inl e
              | Inr ks \<Rightarrow> Inr (if method_of a i ''start'' \<noteq> None then sec # ks else ks)))
      else start_filter a rest)"

fun start_map :: "app \<Rightarrow> string list \<Rightarrow> jsval + (string \<times> retval) list" where
  "start_map a [] = Inr []"
| "start_map a (sec # rest) =
     (case allModules a sec of
        None \<Rightarrow> Inl (JErr TypeError ''Cannot read properties of undefined'' None)
      | Some i \<Rightarrow>
          (case method_of a i ''start'' of
             None \<Rightarrow> Inl (JErr TypeError ''start is not a function'' None)
           | Some f \<Rightarrow>
               (case f [] of
                  Throws e \<Rightarrow> Inl e
                | Returns r \<Rightarrow>
                    (case start_map a rest of
                       Inl e \<Rightarrow> Inl e
                     | Inr rs \<Rightarrow> Inr ((sec, r) # rs)))))"

text \<open>
  The result names the calls made, each with what it returned, and the promise
  \<open>Promise.all\<close> gives for them; \<open>Inl\<close> is a synchronous throw.
\<close>

definition priv_start :: "app \<Rightarrow> string list option \<Rightarrow> jsval + ((string \<times> retval) list \<times> jsval list future)" where
  "priv_start a mods =
     (case start_filter a (case mods of Some ms \<Rightarrow> ms | None \<Rightarrow> modules a) of
        Inl e \<Rightarrow> Inl e
      | Inr ks \<Rightarrow>
          (case start_map a ks of
             Inl e \<Rightarrow> Inl e
           | Inr rs \<Rightarrow> Inr (rs, Promise_all (map (as_future \<circ> snd) rs))))"

subsection \<open>The process: timers, promises, console\<close>

text \<open>
  The stop fan-out is followed on a timeline in milliseconds. A closure that the code
  hands to the runtime is kept as data: \<open>TmFunc k sec tm\<close> is the function
  \<open>tmFunc\<close> made for slot \<open>k\<close>, module \<open>sec\<close> and duration \<open>tm\<close>.
  A task of the queue is a timer that is due, or the settlement of the promise a
  module's \<open>stop()\<close> returned, on which the two \<open>then\<close> handlers of that slot wait.
\<close>

datatype callback = TmFunc nat string nat

datatype task =
    TimerTask nat callback
  | Reaction nat string nat "jsval settled"

text \<open>
  What a caller may pass to \<open>clearTimeout\<close>: the handle \<open>setTimeout\<close> returned, or
  some other object, such as a function.
\<close>

datatype timer_ref = Handle nat | Function callback

text \<open>The receiver \<open>this\<close> of a call.\<close>

datatype receiver = ThisApp | ThisTimeout

datatype proc = Running | Crashed jsval | Exited nat

text \<open>
  \<open>slots\<close> are the promises the \<open>map\<close> of \<open>_stop\<close> builds, in order; \<open>console\<close>
  holds the arguments of each \<open>console.error\<close> call; \<open>calls\<close> lists the modules
  whose \<open>stop()\<close> has been invoked; \<open>sigint\<close> counts the registrations of the
  interrupt listener; \<open>exitOnSettle\<close> says that the \<open>then\<close> handler of
  \<open>signalInterrupt\<close> waits for the aggregate.
\<close>

record world =
  clock :: nat
  queue :: "(nat \<times> task) list"
  handles :: nat
  slots :: "jsval promise list"
  console :: "jsval list list"
  calls :: "string list"
  proc :: proc
  sigint :: nat
  exitOnSettle :: bool

definition world0 :: world where
  "world0 = \<lparr> clock = 0, queue = [], handles = 0, slots = [], console = [], calls = [],
              proc = Running, sigint = 0, exitOnSettle = False \<rparr>"

text \<open>
  The queue is kept in firing order: earlier times first, at one time a timer before a
  settlement, and tasks of one kind in the order they were added.
\<close>

fun runs_before :: "nat \<times> task \<Rightarrow> nat \<times> task \<Rightarrow> bool" where
  "runs_before (t, TimerTask h cb) (t', Reaction k sec tm out) = (t \<le> t')"
| "runs_before (t, x) (t', y) = (t < t')"

fun enqueue :: "nat \<times> task \<Rightarrow> (nat \<times> task) list \<Rightarrow> (nat \<times> task) list" where
  "enqueue e [] = [e]"
| "enqueue e (x # xs) = (if runs_before e x then e # x # xs else x # enqueue e xs)"

text \<open>
  Node's \<open>setTimeout\<close>: a delay outside \<open>1 .. 2^31 - 1\<close> is taken as 1; the handle
  is returned. \<open>clearTimeout\<close> removes the timer of a handle and does nothing for an
  argument that is not one.
\<close>

definition timer_delay :: "nat \<Rightarrow> nat" where
  "timer_delay ms = (if 1 \<le> ms \<and> ms \<le> 2147483647 then ms else 1)"

definition setTimeout :: "callback \<Rightarrow> nat \<Rightarrow> world \<Rightarrow> timer_ref \<times> world" where
  "setTimeout cb ms w =
     (Handle (handles w),
      w\<lparr>queue := enqueue (clock w + timer_delay ms, TimerTask (handles w) cb) (queue w),
        handles := handles w + 1\<rparr>)"

fun is_timer :: "nat \<Rightarrow> nat \<times> task \<Rightarrow> bool" where
  "is_timer h (t, TimerTask h' cb) = (h = h')"
| "is_timer h (t, Reaction k sec tm out) = False"

fun clearTimeout :: "timer_ref \<Rightarrow> world \<Rightarrow> world" where
  "clearTimeout (Handle h) w = w\<lparr>queue := filter (\<lambda>e. \<not> is_timer h e) (queue w)\<rparr>"
| "clearTimeout (Function cb) w = w"

definition console_error :: "jsval list \<Rightarrow> world \<Rightarrow> world" where
  "console_error args w = w\<lparr>console := console w @ [args]\<rparr>"

text \<open>An exception that nothing catches ends the process.\<close>

definition uncaught :: "jsval \<Rightarrow> world \<Rightarrow> world" where
  "uncaught e w = w\<lparr>proc := Crashed e\<rparr>"

text \<open>\<open>resolve\<close> and \<open>reject\<close> of slot \<open>k\<close>: only the first call settles the promise.\<close>

definition settle :: "nat \<Rightarrow> jsval settled \<Rightarrow> world \<Rightarrow> world" where
  "settle k out w =
     (if k < length (slots w) \<and> slots w ! k = Pending
      then w\<lparr>slots := (slots w)[k := Settled out]\<rparr> else w)"

definition resolve :: "nat \<Rightarrow> jsval \<Rightarrow> world \<Rightarrow> world" where
  "resolve k v w = settle k (FulfilledWith v) w"

definition reject :: "nat \<Rightarrow> jsval \<Rightarrow> world \<Rightarrow> world" where
  "reject k e w = settle k (RejectedWith e) w"

subsection \<open>The stop fan-out\<close>

definition newline :: string where
  "newline = [CHR 0x0A]"

text \<open>
  \<open>tmFunc\<close> is written with \<open>function\<close>, so its \<open>this\<close> is the receiver of the
  call. On the Application \<open>this.throwError\<close> is \<open>throwError\<close>; on a Timeout object
  it is undefined, and calling it is a TypeError raised before \<open>reject\<close> is reached.
\<close>

definition tmFunc :: "app \<Rightarrow> receiver \<Rightarrow> nat \<Rightarrow> string \<Rightarrow> nat \<Rightarrow> world \<Rightarrow> world" where
  "tmFunc a this k sec tm w =
     (let msg = ''Stopping of '' @ sec @ '' timed out after '' @ string_of_nat tm @ '' ms!'';
          w1 = console_error [JStr (msg @ newline)] w
      in case this of
           ThisApp \<Rightarrow>
             (case throwError a ''STOP_TIMED_OUT'' msg True of
                Inr er \<Rightarrow> reject k er w1
              | Inl er \<Rightarrow> uncaught er w1)
         | ThisTimeout \<Rightarrow>
             uncaught (JErr TypeError ''this.throwError is not a function'' None) w1)"

text \<open>The two handlers given to \<open>then\<close>.\<close>

definition onFulfilled :: "nat \<Rightarrow> string \<Rightarrow> nat \<Rightarrow> jsval \<Rightarrow> world \<Rightarrow> world" where
  "onFulfilled k sec tm v w = resolve k v (clearTimeout (Function (TmFunc k sec tm)) w)"

definition onRejected :: "nat \<Rightarrow> string \<Rightarrow> nat \<Rightarrow> jsval \<Rightarrow> world \<Rightarrow> world" where
  "onRejected k sec tm er w =
     reject k er
       (console_error [er, JStr newline]
          (console_error [JStr (sec @ '' could not be stopped!'' @ newline)]
             (clearTimeout (Function (TmFunc k sec tm)) w)))"

text \<open>
  The executor of \<open>new Promise\<close> for a module with a \<open>stop\<close> function \<open>f\<close>. The
  handle \<open>setTimeout\<close> returns is dropped. An exception inside an executor rejects
  the promise: that is the case when \<open>stop()\<close> throws, and when what it returns has no
  \<open>then\<close>.
\<close>

definition executor :: "app \<Rightarrow> inst \<Rightarrow> jsfun \<Rightarrow> string \<Rightarrow> world \<Rightarrow> world" where
  "executor a i f sec w =
     (let k = length (slots w);
          tm = (case stopTimeout (obj_of a i) of None \<Rightarrow> 2000 | Some t \<Rightarrow> t);
          w1 = snd (setTimeout (TmFunc k sec tm) tm (w\<lparr>slots := slots w @ [Pending]\<rparr>));
          w2 = w1\<lparr>calls := calls w1 @ [sec]\<rparr>
      in case f [] of
           Throws e \<Rightarrow> reject k e w2
         | Returns (Plain v) \<Rightarrow> reject k (JErr TypeError ''then is not a function'' None) w2
         | Returns (Promise None) \<Rightarrow> w2
         | Returns (Promise (Some (d, out))) \<Rightarrow>
             w2\<lparr>queue := enqueue (clock w2 + d, Reaction k sec tm out) (queue w2)\<rparr>)"

text \<open>The function given to \<open>map\<close> in \<open>_stop\<close>.\<close>

definition stop_one :: "app \<Rightarrow> string \<Rightarrow> world \<Rightarrow> jsval option \<times> world" where
  "stop_one a sec w =
     (case allModules a sec of
        None \<Rightarrow> (Some (JErr TypeError ''Cannot read properties of undefined'' None), w)
      | Some i \<Rightarrow>
          (case method_of a i ''stop'' of
             None \<Rightarrow>
               (None, w\<lparr>slots := slots w @
                          [Settled (FulfilledWith (JStr ''stop MODULE_FUNCTION_NOT_FOUND''))]\<rparr>)
           | Some f \<Rightarrow> (None, executor a i f sec w)))"

fun stop_each :: "app \<Rightarrow> string list \<Rightarrow> world \<Rightarrow> jsval option \<times> world" where
  "stop_each a [] w = (None, w)"
| "stop_each a (sec # rest) w =
     (case stop_one a sec w of
        (Some e, w') \<Rightarrow> (Some e, w')
      | (None, w') \<Rightarrow> stop_each a rest w')"

definition priv_stop :: "app \<Rightarrow> string list option \<Rightarrow> world \<Rightarrow> jsval option \<times> world" where
  "priv_stop a mods w =
     stop_each a
       (filter (\<lambda>sec. sec \<noteq> mainAppName) (case mods of Some ms \<Rightarrow> ms | None \<Rightarrow> modules a)) w"

text \<open>\<open>start()\<close> and \<open>stop()\<close> add and remove the interrupt listener first.\<close>

definition start :: "app \<Rightarrow> world \<Rightarrow> (jsval + ((string \<times> retval) list \<times> jsval list future)) \<times> world" where
  "start a w = (priv_start a None, w\<lparr>sigint := sigint w + 1\<rparr>)"

definition stop :: "app \<Rightarrow> world \<Rightarrow> jsval option \<times> world" where
  "stop a w = priv_stop a None (w\<lparr>sigint := sigint w - 1\<rparr>)"

text \<open>
  \<open>Promise.allSettled\<close>: pending while an input is pending, then fulfilled with one
  entry per input, in input order.
\<close>

fun entries :: "'a promise list \<Rightarrow> 'a settled list" where
  "entries [] = []"
| "entries (Pending # ps) = entries ps"
| "entries (Settled s # ps) = s # entries ps"

definition allSettled :: "'a promise list \<Rightarrow> 'a settled list promise" where
  "allSettled ps = (if Pending \<in> set ps then Pending else Settled (FulfilledWith (entries ps)))"

text \<open>The promise \<open>_stop\<close> returned, as it stands in a world.\<close>

definition aggregate :: "world \<Rightarrow> jsval settled list promise" where
  "aggregate w = allSettled (slots w)"

text \<open>
  The \<open>then\<close> handler of \<open>signalInterrupt\<close>: once the aggregate is fulfilled it calls
  \<open>process.exit\<close>.
\<close>

definition exit_if_settled :: "world \<Rightarrow> world" where
  "exit_if_settled w =
     (if exitOnSettle w \<and> proc w = Running then
        (case aggregate w of
           Settled (FulfilledWith results) \<Rightarrow> w\<lparr>proc := Exited (exit_code results)\<rparr>
         | _ \<Rightarrow> w)
      else w)"

text \<open>
  \<open>signalInterrupt()\<close>; the line it writes to stdout is not modelled. An exception
  thrown by \<open>stop()\<close> leaves the listener uncaught.
\<close>

definition signalInterrupt :: "app \<Rightarrow> world \<Rightarrow> world" where
  "signalInterrupt a w =
     (case stop a w of
        (Some e, w') \<Rightarrow> uncaught e w'
      | (None, w') \<Rightarrow> exit_if_settled (w'\<lparr>exitOnSettle := True\<rparr>))"

text \<open>
  Running a task. The timer subsystem calls a callback with its Timeout object as
  \<open>this\<close>; a settlement runs the handler that matches it.
\<close>

fun exec :: "app \<Rightarrow> task \<Rightarrow> world \<Rightarrow> world" where
  "exec a (TimerTask h (TmFunc k sec tm)) w = tmFunc a ThisTimeout k sec tm w"
| "exec a (Reaction k sec tm (FulfilledWith v)) w = onFulfilled k sec tm v w"
| "exec a (Reaction k sec tm (RejectedWith e)) w = onRejected k sec tm e w"

text \<open>
  The process at time \<open>T\<close>: every task due by then has run, in order, unless the
  process ended first.
\<close>

lemma queue_exec: "queue (exec a x w) = queue w"
  by (cases "(a, x, w)" rule: exec.cases)
    (simp_all add: tmFunc_def onFulfilled_def onRejected_def resolve_def reject_def settle_def
      console_error_def uncaught_def Let_def throwError_def)

lemma queue_exit_if_settled: "queue (exit_if_settled w) = queue w"
  by (simp add: exit_if_settled_def split: promise.splits settled.splits)

function run_until :: "app \<Rightarrow> nat \<Rightarrow> world \<Rightarrow> world" where
  "run_until a T w =
     (case queue w of
        [] \<Rightarrow> w
      | (t, x) # rest \<Rightarrow>
          if proc w \<noteq> Running \<or> T < t then w
          else run_until a T (exit_if_settled (exec a x (w\<lparr>queue := rest, clock := t\<rparr>))))"
  by pat_completeness auto
termination
  by (relation "measure (\<lambda>(a, T, w). length (queue w))")
    (simp_all add: queue_exit_if_settled queue_exec)

declare run_until.simps [simp del]

subsection \<open>A small configuration\<close>



definition app0 :: app where
  "app0 = \<lparr> config = [(''mbjs-app'', JObj [(''name'', JStr ''my-app'')])],
            configProto = None,
            srcdir = ''/srv'',
            appConfig = JObj [(''name'', JStr ''my-app'')],
            mainModuleCodeUpper = ''MY_APP'',
            modules = [''mbjs-app''],
            AllModules = Map.empty,
            allModules = Map.empty,
            selfMethods = [] \<rparr>"

text \<open>\<open>typeof this.allModules[sec][func] === 'function'\<close> for a registered name.\<close>

definition has_function :: "app \<Rightarrow> string \<Rightarrow> string \<Rightarrow> bool" where
  "has_function a func sec =
     (case allModules a sec of None \<Rightarrow> False | Some i \<Rightarrow> method_of a i func \<noteq> None)"

text \<open>
  The applications that follow are written as they stand after \<open>require\<close> and
  \<open>init\<close>: configuration, module list and instance registry; the class registry,
  which no later operation reads, is left empty. In \<open>app1\<close> the module \<open>db\<close>
  answers \<open>ping\<close> and \<open>log\<close> has no function at all.
\<close>

definition pong :: jsfun where
  "pong ps = Returns (Plain (JStr ''pong''))"

definition app1 :: app where
  "app1 = app0\<lparr> config := [(''mbjs-app'', JObj [(''name'', JStr ''my-app'')]), (''db'', JObj []), (''log'', JObj [])],
      modules := [''mbjs-app'', ''db'', ''log''],
      allModules :=
      [''mbjs-app'' \<mapsto> AppSelf,
       ''db'' \<mapsto> Mod \<lparr>stopTimeout = None, methods = [(''ping'', pong)]\<rparr>,
       ''log'' \<mapsto> Mod \<lparr>stopTimeout = None, methods = []\<rparr>] \<rparr>"

text \<open>
  Modules for the fan-outs: a function that returns a promise settling after \<open>d\<close>
  milliseconds, and one whose promise never settles.
\<close>

definition settles_after :: "nat \<Rightarrow> jsval settled \<Rightarrow> jsfun" where
  "settles_after d out ps = Returns (Promise (Some (d, out)))"

definition hangs :: jsfun where
  "hangs ps = Returns (Promise None)"

definition app2 :: app where
  "app2 = app0\<lparr> config := [(''mbjs-app'', JObj [(''name'', JStr ''my-app'')]), (''db'', JObj []), (''cache'', JObj []), (''log'', JObj []), (''slow'', JObj [])],
      modules := [''mbjs-app'', ''db'', ''cache'', ''log'', ''slow''],
      allModules :=
        [''mbjs-app'' \<mapsto> AppSelf,
         ''db'' \<mapsto> Mod \<lparr>stopTimeout = None,
                          methods = [(''start'', settles_after 5 (FulfilledWith (JStr ''up'')))]\<rparr>,
         ''cache'' \<mapsto> Mod \<lparr>stopTimeout = None,
                          methods = [(''start'', settles_after 3 (RejectedWith (JStr ''boom'')))]\<rparr>,
         ''log'' \<mapsto> Mod \<lparr>stopTimeout = None, methods = []\<rparr>,
         ''slow'' \<mapsto> Mod \<lparr>stopTimeout = None, methods = [(''start'', hangs)]\<rparr>] \<rparr>"

text \<open>
  Applications for the stop fan-out. In \<open>app3\<close> the \<open>stop()\<close> of \<open>db\<close> never
  settles, \<open>log\<close> has no \<open>stop\<close>, and \<open>cache\<close> declares a timeout of 5000 ms
  and stops after 3000 ms. In \<open>app4\<close> the one module stops after 10 ms, in
  \<open>app5\<close> its \<open>stop()\<close> is rejected after 10 ms.
\<close>

definition app3 :: app where
  "app3 = app0\<lparr> config := [(''mbjs-app'', JObj [(''name'', JStr ''my-app'')]), (''db'', JObj []), (''log'', JObj []), (''cache'', JObj [])],
      modules := [''mbjs-app'', ''db'', ''log'', ''cache''],
      allModules :=
        [''mbjs-app'' \<mapsto> AppSelf,
         ''db'' \<mapsto> Mod \<lparr>stopTimeout = None, methods = [(''stop'', hangs)]\<rparr>,
         ''log'' \<mapsto> Mod \<lparr>stopTimeout = None, methods = []\<rparr>,
         ''cache'' \<mapsto> Mod \<lparr>stopTimeout = Some 5000,
                            methods = [(''stop'', settles_after 3000 (FulfilledWith (JStr ''flushed'')))]\<rparr>] \<rparr>"

definition app4 :: app where
  "app4 = app0\<lparr> config := [(''mbjs-app'', JObj [(''name'', JStr ''my-app'')]), (''db'', JObj [])],
      modules := [''mbjs-app'', ''db''],
      allModules :=
        [''mbjs-app'' \<mapsto> AppSelf,
         ''db'' \<mapsto> Mod \<lparr>stopTimeout = None,
                         methods = [(''stop'', settles_after 10 (FulfilledWith (JStr ''ok'')))]\<rparr>] \<rparr>"

definition app5 :: app where
  "app5 = app0\<lparr> config := [(''mbjs-app'', JObj [(''name'', JStr ''my-app'')]), (''db'', JObj [])],
      modules := [''mbjs-app'', ''db''],
      allModules :=
        [''mbjs-app'' \<mapsto> AppSelf,
         ''db'' \<mapsto> Mod \<lparr>stopTimeout = None,
                         methods = [(''stop'', settles_after 10 (RejectedWith (JStr ''boom'')))]\<rparr>] \<rparr>"

text \<open>
  Words for the stop fan-out: what the call \<open>stop()\<close> of a listed name does
  (\<open>None\<close> when its instance has no such function), the duration \<open>tm\<close> read for
  it, and the state its slot is in when \<open>_stop\<close> returns.
\<close>

definition stop_call :: "app \<Rightarrow> string \<Rightarrow> result option" where
  "stop_call a sec =
     (case allModules a sec of
        None \<Rightarrow> None
      | Some i \<Rightarrow> (case method_of a i ''stop'' of None \<Rightarrow> None | Some f \<Rightarrow> Some (f [])))"

definition stop_tm :: "app \<Rightarrow> string \<Rightarrow> nat" where
  "stop_tm a sec =
     (case allModules a sec of
        None \<Rightarrow> 2000
      | Some i \<Rightarrow> (case stopTimeout (obj_of a i) of None \<Rightarrow> 2000 | Some t \<Rightarrow> t))"

fun slot_init :: "result option \<Rightarrow> jsval promise" where
  "slot_init None = Settled (FulfilledWith (JStr ''stop MODULE_FUNCTION_NOT_FOUND''))"
| "slot_init (Some (Throws e)) = Settled (RejectedWith e)"
| "slot_init (Some (Returns (Plain v))) =
     Settled (RejectedWith (JErr TypeError ''then is not a function'' None))"
| "slot_init (Some (Returns (Promise p))) = Pending"

text \<open>The slot a task can settle, and the tasks that are timers.\<close>

fun targets :: "task \<Rightarrow> nat \<Rightarrow> bool" where
  "targets (Reaction k' sec tm out) k = (k' = k)"
| "targets (TimerTask h cb) k = False"

fun is_timer_task :: "task \<Rightarrow> bool" where
  "is_timer_task (TimerTask h cb) = True"
| "is_timer_task (Reaction k sec tm out) = False"

text \<open>
  In \<open>app6\<close> the \<open>stop()\<close> of \<open>web\<close> throws, that of \<open>db\<close> is rejected after
  3 ms, that of \<open>cache\<close> is fulfilled after 10 ms, and \<open>log\<close> has no \<open>stop\<close>.
\<close>

definition throws_bang :: jsfun where
  "throws_bang ps = Throws (JStr ''bang'')"

definition app6 :: app where
  "app6 = app0\<lparr> config := [(''mbjs-app'', JObj [(''name'', JStr ''my-app'')]), (''web'', JObj []),
                           (''db'', JObj []), (''cache'', JObj []), (''log'', JObj [])],
      modules := [''mbjs-app'', ''web'', ''db'', ''cache'', ''log''],
      allModules :=
        [''mbjs-app'' \<mapsto> AppSelf,
         ''web'' \<mapsto> Mod \<lparr>stopTimeout = None, methods = [(''stop'', throws_bang)]\<rparr>,
         ''db'' \<mapsto> Mod \<lparr>stopTimeout = None,
                         methods = [(''stop'', settles_after 3 (RejectedWith (JStr ''boom'')))]\<rparr>,
         ''cache'' \<mapsto> Mod \<lparr>stopTimeout = None,
                            methods = [(''stop'', settles_after 10 (FulfilledWith (JStr ''flushed'')))]\<rparr>,
         ''log'' \<mapsto> Mod \<lparr>stopTimeout = None, methods = []\<rparr>] \<rparr>"

text \<open>
  How and when the call \<open>stop()\<close> of a listed name ends: the outcome its slot is to
  take (\<open>None\<close> for a promise that never settles) and the time of it.
\<close>

fun stop_outcome :: "result option \<Rightarrow> jsval settled option" where
  "stop_outcome None = Some (FulfilledWith (JStr ''stop MODULE_FUNCTION_NOT_FOUND''))"
| "stop_outcome (Some (Throws e)) = Some (RejectedWith e)"
| "stop_outcome (Some (Returns (Plain v))) =
     Some (RejectedWith (JErr TypeError ''then is not a function'' None))"
| "stop_outcome (Some (Returns (Promise None))) = None"
| "stop_outcome (Some (Returns (Promise (Some (d, out))))) = Some out"

fun stop_time :: "result option \<Rightarrow> nat" where
  "stop_time (Some (Returns (Promise (Some (d, out))))) = d"
| "stop_time r = 0"

text \<open>The outcome a settlement carries.\<close>

fun outcome_of :: "task \<Rightarrow> jsval settled option" where
  "outcome_of (Reaction k sec tm out) = Some out"
| "outcome_of (TimerTask h cb) = None"

text \<open>
  The state of slot \<open>k\<close> while the settlement of its \<open>stop()\<close> promise, due at
  \<open>d\<close> with outcome \<open>out\<close>, is under way: the process runs, the queue is in firing
  order, no timer is due by \<open>d\<close>, and the slot either holds \<open>out\<close> or is pending
  with its settlement queued at \<open>d\<close>.
\<close>

definition settling :: "nat \<Rightarrow> nat \<Rightarrow> jsval settled \<Rightarrow> world \<Rightarrow> bool" where
  "settling k d out v \<longleftrightarrow>
     k < length (slots v) \<and> proc v = Running \<and> \<not> exitOnSettle v
     \<and> sorted (map fst (queue v))
     \<and> (\<forall>e \<in> set (queue v). is_timer_task (snd e) \<longrightarrow> d < fst e)
     \<and> (\<forall>e \<in> set (queue v). targets (snd e) k \<longrightarrow> outcome_of (snd e) = Some out)
     \<and> (slots v ! k = Settled out
         \<or> (slots v ! k = Pending \<and> (\<exists>e \<in> set (queue v). fst e = d \<and> targets (snd e) k)))"

section \<open>Properties\<close>

lemma split_not_Nil: "split sep s \<noteq> []"
  by (induction s) (auto split: list.splits)

lemma join_split_replace:
  "join [r] (split sep s) = map (\<lambda>c. if c = sep then r else c) s"
proof (induction s)
  case Nil
  show ?case by simp
next
  case (Cons c cs)
  obtain p ps where sp: "split sep cs = p # ps"
    using split_not_Nil [of sep cs] by (cases "split sep cs") auto
  show ?case
  proof (cases "c = sep")
    case True
    with Cons sp show ?thesis by simp
  next
    case False
    with Cons sp show ?thesis by (cases ps) auto
  qed
qed


subsection \<open>The error-raising facility\<close>

lemma Application_prefix:
  assumes "Application cfg dir self = Inr a" and "name_of_main cfg = Inr nm"
  shows "mainModuleCodeUpper a = code_prefix_spec nm"
  using assms
  by (auto simp: Application_def code_prefix_spec_def
      join_split_replace [of "CHR ''_''", simplified] split: sum.splits)

text \<open>
  C8. When the constructor accepts a configuration whose main-app entry has the name
  \<open>nm\<close>, every error of \<open>throwError\<close> carries the code made of \<open>nm\<close> with
  hyphens turned into underscores and upper-cased, an underscore, and the given code;
  with \<open>justReturn\<close> the error is returned, without it the error is thrown.
\<close>

theorem throwError_code:
  assumes "Application cfg dir self = Inr a" and "name_of_main cfg = Inr nm"
  shows "throwError a errCode msg True =
           Inr (JErr PlainError msg (Some (code_prefix_spec nm @ ''_'' @ errCode)))
       \<and> throwError a errCode msg False =
           Inl (JErr PlainError msg (Some (code_prefix_spec nm @ ''_'' @ errCode)))"
  using Application_prefix [OF assms] by (simp add: throwError_def)

theorem throwError_code_witness:
  "\<exists>a. Application [(''mbjs-app'', JObj [(''name'', JStr ''my-app'')])] ''/srv'' [] = Inr a
     \<and> name_of_main [(''mbjs-app'', JObj [(''name'', JStr ''my-app'')])] = Inr ''my-app''
     \<and> throwError a ''STOP_TIMED_OUT'' ''late'' True =
          Inr (JErr PlainError ''late'' (Some ''MY_APP_STOP_TIMED_OUT''))
     \<and> throwError a ''STOP_TIMED_OUT'' ''late'' False =
          Inl (JErr PlainError ''late'' (Some ''MY_APP_STOP_TIMED_OUT''))"
proof -
  let ?cfg = "[(''mbjs-app'', JObj [(''name'', JStr ''my-app'')])]"
  have n: "name_of_main ?cfg = Inr ''my-app''"
    by (simp add: name_of_main_def mainAppName_def)
  obtain a where h: "Application ?cfg ''/srv'' [] = Inr a"
    by (simp add: Application_def n)
  have p: "code_prefix_spec ''my-app'' = ''MY_APP''"
    by code_simp
  from throwError_code [OF h n, of "''STOP_TIMED_OUT''" "''late''"] h n p show ?thesis
    by auto
qed

subsection \<open>The exit disposition\<close>

lemma exit_code_zero_iff:
  "exit_code rs = 0 \<longleftrightarrow> (\<exists>r \<in> set rs. status r \<noteq> ''fulfilled'')"
  by (auto simp: exit_code_def successExit_def find_None_iff find_Some_iff split: option.splits)

subsection \<open>require\<close>

lemma require_one_absent:
  assumes "require_one load conf a sec = (r, a')" and "map_of (config a) sec = None"
    and "sec \<noteq> ''__proto__''"
  shows "config a' = config a @ [(sec, conf)] \<and> modules a' = modules a @ [sec]
       \<and> configProto a' = configProto a"
  using assms by (auto simp: require_one_def Let_def split: sum.splits if_splits)

lemma require_one_present:
  assumes "require_one load conf a sec = (r, a')" and "map_of (config a) sec \<noteq> None"
  shows "config a' = config a \<and> modules a' = modules a \<and> configProto a' = configProto a"
  using assms by (auto simp: require_one_def Let_def split: sum.splits if_splits)

lemma require_one_proto:
  assumes "require_one load conf a ''__proto__'' = (r, a')"
    and "map_of (config a) ''__proto__'' = None"
  shows "config a' = config a \<and> modules a' = modules a @ [''__proto__'']
       \<and> configProto a' = (if is_object conf then Some conf else configProto a)"
  using assms by (auto simp: require_one_def Let_def split: sum.splits if_splits)


lemma require_one_rest:
  assumes "require_one load conf a sec = (r, a')"
  shows "srcdir a' = srcdir a \<and> appConfig a' = appConfig a
       \<and> mainModuleCodeUpper a' = mainModuleCodeUpper a
       \<and> allModules a' = allModules a \<and> selfMethods a' = selfMethods a
       \<and> app.more a' = app.more a"
  using assms by (auto simp: require_one_def Let_def split: sum.splits if_splits)


lemma require_each_rest:
  "require_each load conf names a = (r, a') \<Longrightarrow>
     srcdir a' = srcdir a \<and> appConfig a' = appConfig a
       \<and> mainModuleCodeUpper a' = mainModuleCodeUpper a
       \<and> allModules a' = allModules a \<and> selfMethods a' = selfMethods a
       \<and> app.more a' = app.more a"
proof (induction names arbitrary: a)
  case Nil
  then show ?case by simp
next
  case (Cons sec rest)
  obtain r1 a1 where one: "require_one load conf a sec = (r1, a1)"
    by (cases "require_one load conf a sec")
  note f1 = require_one_rest [OF one]
  show ?case
  proof (cases r1)
    case None
    with Cons.prems one have "require_each load conf rest a1 = (r, a')" by simp
    from Cons.IH [OF this] f1 show ?thesis by simp
  next
    case (Some e)
    with Cons.prems one have "a' = a1" by simp
    with f1 show ?thesis by simp
  qed
qed


lemma require_each_prototype:
  assumes "require_each load conf names a = (r, a')" and "''__proto__'' \<notin> set names"
  shows "configProto a' = configProto a"
  using assms
proof (induction names arbitrary: a)
  case Nil
  then show ?case by simp
next
  case (Cons sec rest)
  obtain r1 a1 where one: "require_one load conf a sec = (r1, a1)"
    by (cases "require_one load conf a sec")
  from Cons.prems(2) have np: "sec \<noteq> ''__proto__''" "''__proto__'' \<notin> set rest" by auto
  from require_one_absent [OF one _ np(1)] require_one_present [OF one]
  have a1: "configProto a1 = configProto a" by (cases "map_of (config a) sec = None") auto
  show ?case
  proof (cases r1)
    case None
    with Cons.prems one have "require_each load conf rest a1 = (r, a')" by simp
    from Cons.IH [OF this np(2)] a1 show ?thesis by simp
  next
    case (Some e)
    with Cons.prems one have "a' = a1" by simp
    with a1 show ?thesis by simp
  qed
qed







subsection \<open>Named dispatch\<close>

lemma module_each_skip:
  assumes "allModules a n = Some i" and "method_of a i func = None"
  shows "module_each a True func ps (xs @ n # ys) acc = module_each a True func ps (xs @ ys) acc"
proof (induction xs arbitrary: acc)
  case Nil
  from assms show ?case by simp
next
  case (Cons x xs)
  then show ?case by (simp split: option.splits result.splits sum.splits)
qed

lemma module_each_length:
  "module_each a True func ps ns acc = Inr rs \<Longrightarrow>
     length rs = length acc + length (filter (has_function a func) ns)"
proof (induction ns arbitrary: acc)
  case Nil
  then show ?case by simp
next
  case (Cons x xs)
  show ?case
  proof (cases "allModules a x")
    case None
    with Cons.prems show ?thesis by (simp add: throwError_def)
  next
    case (Some i)
    show ?thesis
    proof (cases "method_of a i func")
      case None
      with Some Cons.prems have "module_each a True func ps xs acc = Inr rs" by simp
      from Cons.IH [OF this] Some None show ?thesis by (simp add: has_function_def)
    next
      case (Some f)
      with \<open>allModules a x = Some i\<close> Cons.prems obtain r where
        "f ps = Returns r" "module_each a True func ps xs (acc @ [r]) = Inr rs"
        by (auto split: result.splits)
      from Cons.IH [OF this(2)] Some \<open>allModules a x = Some i\<close> show ?thesis
        by (simp add: has_function_def)
    qed
  qed
qed

text \<open>
  C7. Let \<open>n\<close> be registered with an instance that has no function \<open>func\<close>.
  Dispatching to the single name \<open>n\<close> throws the error coded
  \<open>MODULE_FUNCTION_NOT_FOUND\<close> under the application's prefix. Dispatching to an array
  that lists \<open>n\<close> behaves exactly as dispatching to the array without that occurrence:
  the same results in the same order, or the same error from another name; the result
  has one entry per listed name that has the function.
\<close>

theorem module_missing_function:
  assumes "allModules a n = Some i" and "method_of a i func = None"
  shows "module a (Single n) func ps =
           Inl (JErr PlainError ''Error''
                  (Some (mainModuleCodeUpper a @ ''_MODULE_FUNCTION_NOT_FOUND'')))
       \<and> module a (Batch (xs @ n # ys)) func ps = module a (Batch (xs @ ys)) func ps
       \<and> (\<forall>rs. module a (Batch (xs @ n # ys)) func ps = Inr (Many rs) \<longrightarrow>
            length rs = length (filter (has_function a func) (xs @ ys)))"
proof -
  have single: "module a (Single n) func ps =
           Inl (JErr PlainError ''Error''
                  (Some (mainModuleCodeUpper a @ ''_MODULE_FUNCTION_NOT_FOUND'')))"
    using assms by (simp add: module_def throwError_def)
  have skip: "module a (Batch (xs @ n # ys)) func ps = module a (Batch (xs @ ys)) func ps"
    by (simp add: module_def module_each_skip [OF assms])
  have len: "length rs = length (filter (has_function a func) (xs @ ys))"
    if "module a (Batch (xs @ n # ys)) func ps = Inr (Many rs)" for rs
  proof -
    from that skip have "module_each a True func ps (xs @ ys) [] = Inr rs"
      by (auto simp: module_def split: sum.splits)
    from module_each_length [OF this] show ?thesis by simp
  qed
  from single skip len show ?thesis by blast
qed

theorem module_missing_function_witness:
  "allModules app1 ''log'' = Some (Mod \<lparr>stopTimeout = None, methods = []\<rparr>)
   \<and> method_of app1 (Mod \<lparr>stopTimeout = None, methods = []\<rparr>) ''ping'' = None
   \<and> module app1 (Single ''log'') ''ping'' [] =
        Inl (JErr PlainError ''Error'' (Some ''MY_APP_MODULE_FUNCTION_NOT_FOUND''))
   \<and> module app1 (Batch [''db'', ''log'', ''db'']) ''ping'' [] =
        Inr (Many [Plain (JStr ''pong''), Plain (JStr ''pong'')])"
proof -
  have r: "allModules app1 ''log'' = Some (Mod \<lparr>stopTimeout = None, methods = []\<rparr>)"
    by (simp add: app1_def app0_def)
  have m: "method_of app1 (Mod \<lparr>stopTimeout = None, methods = []\<rparr>) ''ping'' = None"
    by (simp add: method_of_def obj_of_def)
  have b: "module app1 (Batch ([''db''] @ [''db''])) ''ping'' [] =
        Inr (Many [Plain (JStr ''pong''), Plain (JStr ''pong'')])"
    by (simp add: module_def app1_def app0_def method_of_def obj_of_def pong_def)
  have c: "mainModuleCodeUpper app1 = ''MY_APP''" by (simp add: app1_def app0_def)
  from module_missing_function [OF r m, of "[]" "[''db'']" "[''db'']"] r m b c show ?thesis
    by simp
qed

subsection \<open>The start fan-out\<close>

lemma start_filter_eq:
  "start_filter a ns = Inr ks \<Longrightarrow>
     ks = filter (\<lambda>sec. sec \<noteq> mainAppName \<and> has_function a ''start'' sec) ns"
proof (induction ns arbitrary: ks)
  case Nil
  then show ?case by simp
next
  case (Cons x xs)
  then show ?case
    by (auto simp: has_function_def split: if_splits option.splits sum.splits)
qed

lemma start_map_calls:
  "start_map a ks = Inr rs \<Longrightarrow>
     map fst rs = ks \<and>
     (\<forall>c \<in> set rs. \<exists>i f. allModules a (fst c) = Some i \<and> method_of a i ''start'' = Some f
                         \<and> f [] = Returns (snd c))"
proof (induction ks arbitrary: rs)
  case Nil
  then show ?case by simp
next
  case (Cons x xs)
  then show ?case
    by (fastforce split: option.splits result.splits sum.splits)
qed

lemma first_rejection_None:
  "first_rejection fs = None \<longleftrightarrow> (\<forall>t e. Some (t, RejectedWith e) \<notin> set fs)"
  by (induction fs rule: first_rejection.induct) (auto split: option.splits)

lemma first_rejection_Some:
  "first_rejection fs = Some (t, e) \<Longrightarrow>
     Some (t, RejectedWith e) \<in> set fs \<and> (\<forall>t' e'. Some (t', RejectedWith e') \<in> set fs \<longrightarrow> t \<le> t')"
proof (induction fs arbitrary: t e rule: first_rejection.induct)
  case 1
  then show ?case by simp
next
  case (2 fs)
  then show ?case by simp
next
  case (3 t0 v fs)
  then show ?case by simp
next
  case (4 t0 e0 fs)
  show ?case
  proof (cases "first_rejection fs")
    case None
    with 4 first_rejection_None [of fs] show ?thesis by auto
  next
    case (Some p)
    obtain t1 e1 where p: "p = (t1, e1)" by (cases p)
    from "4.IH" [of t1 e1] Some p have
      ih: "Some (t1, RejectedWith e1) \<in> set fs" "\<forall>t' e'. Some (t', RejectedWith e') \<in> set fs \<longrightarrow> t1 \<le> t'"
      by auto
    from "4.prems" Some p ih show ?thesis by (auto split: if_splits)
  qed
qed

lemma all_fulfilled_Some:
  "all_fulfilled fs = Some (t, vs) \<Longrightarrow>
     length vs = length fs \<and> (\<forall>k < length fs. \<exists>tk. fs ! k = Some (tk, FulfilledWith (vs ! k)) \<and> tk \<le> t)"
proof (induction fs arbitrary: t vs rule: all_fulfilled.induct)
  case 1
  then show ?case by simp
next
  case (2 t0 v fs)
  from "2.prems" obtain t1 vs1 where
    r: "all_fulfilled fs = Some (t1, vs1)" "t = max t0 t1" "vs = v # vs1"
    by (auto split: option.splits)
  from "2.IH" [OF r(1)] have
    ih: "length vs1 = length fs" "\<forall>k < length fs. \<exists>tk. fs ! k = Some (tk, FulfilledWith (vs1 ! k)) \<and> tk \<le> t1"
    by auto
  show ?case
  proof (intro conjI allI impI)
    show "length vs = length (Some (t0, FulfilledWith v) # fs)" using ih(1) r(3) by simp
  next
    fix k assume k: "k < length (Some (t0, FulfilledWith v) # fs)"
    show "\<exists>tk. (Some (t0, FulfilledWith v) # fs) ! k = Some (tk, FulfilledWith (vs ! k)) \<and> tk \<le> t"
    proof (cases k)
      case 0
      with r(2,3) show ?thesis by simp
    next
      case (Suc j)
      with k have "j < length fs" by simp
      with ih(2) obtain tk where "fs ! j = Some (tk, FulfilledWith (vs1 ! j))" "tk \<le> t1" by blast
      with Suc r(2,3) show ?thesis by simp
    qed
  qed
qed (simp_all)

lemma all_fulfilled_None:
  "all_fulfilled fs = None \<longleftrightarrow> (\<exists>f \<in> set fs. \<forall>t v. f \<noteq> Some (t, FulfilledWith v))"
  by (induction fs rule: all_fulfilled.induct) (auto split: option.splits)

lemma Promise_all_fulfilled_iff:
  "(\<exists>t vs. Promise_all fs = Some (t, FulfilledWith vs)) \<longleftrightarrow>
     (\<forall>f \<in> set fs. \<exists>t v. f = Some (t, FulfilledWith v))"
proof
  assume "\<exists>t vs. Promise_all fs = Some (t, FulfilledWith vs)"
  then have "all_fulfilled fs \<noteq> None"
    by (auto simp: Promise_all_def split: option.splits)
  then show "\<forall>f \<in> set fs. \<exists>t v. f = Some (t, FulfilledWith v)"
    by (simp add: all_fulfilled_None)
next
  assume a: "\<forall>f \<in> set fs. \<exists>t v. f = Some (t, FulfilledWith v)"
  then have "first_rejection fs = None"
    unfolding first_rejection_None by fastforce
  moreover from a have "all_fulfilled fs \<noteq> None"
    by (simp add: all_fulfilled_None)
  ultimately show "\<exists>t vs. Promise_all fs = Some (t, FulfilledWith vs)"
    by (auto simp: Promise_all_def split: option.splits)
qed

lemma Promise_all_rejected:
  "Promise_all fs = Some (t, RejectedWith e) \<longleftrightarrow> first_rejection fs = Some (t, e)"
  by (auto simp: Promise_all_def split: option.splits)

lemma Promise_all_rejected_iff:
  "(\<exists>t e. Promise_all fs = Some (t, RejectedWith e)) \<longleftrightarrow>
     (\<exists>f \<in> set fs. \<exists>t e. f = Some (t, RejectedWith e))"
proof -
  have "(\<exists>t e. first_rejection fs = Some (t, e)) \<longleftrightarrow> first_rejection fs \<noteq> None" by auto
  then show ?thesis
    unfolding Promise_all_rejected first_rejection_None by blast
qed


text \<open>
  C6. When \<open>_start\<close> returns, the calls it made are the \<open>start()\<close> of exactly the
  listed names other than the main-app key whose instance has a \<open>start\<close> function,
  in list order, all made in the one synchronous pass. The promise it returns is
  fulfilled if and only if every one of these starts is fulfilled, then with their
  values in order and not before the last of them; it is rejected if and only if one of
  them is rejected, then with the reason and at the time of the earliest rejection,
  whatever the other starts do.
\<close>

theorem start_all_or_nothing:
  assumes "priv_start a mods = Inr (rs, agg)"
    and "names = (case mods of Some ms \<Rightarrow> ms | None \<Rightarrow> modules a)"
  shows "map fst rs = filter (\<lambda>sec. sec \<noteq> mainAppName \<and> has_function a ''start'' sec) names
       \<and> (\<forall>c \<in> set rs. \<exists>i f. allModules a (fst c) = Some i \<and> method_of a i ''start'' = Some f
                            \<and> f [] = Returns (snd c))
       \<and> ((\<exists>t vs. agg = Some (t, FulfilledWith vs)) \<longleftrightarrow>
            (\<forall>c \<in> set rs. \<exists>t v. as_future (snd c) = Some (t, FulfilledWith v)))
       \<and> (\<forall>t vs. agg = Some (t, FulfilledWith vs) \<longrightarrow>
            length vs = length rs \<and>
            (\<forall>k < length rs. \<exists>tk. as_future (snd (rs ! k)) = Some (tk, FulfilledWith (vs ! k)) \<and> tk \<le> t))
       \<and> ((\<exists>t e. agg = Some (t, RejectedWith e)) \<longleftrightarrow>
            (\<exists>c \<in> set rs. \<exists>t e. as_future (snd c) = Some (t, RejectedWith e)))
       \<and> (\<forall>t e. agg = Some (t, RejectedWith e) \<longrightarrow>
            (\<exists>c \<in> set rs. as_future (snd c) = Some (t, RejectedWith e)) \<and>
            (\<forall>c \<in> set rs. \<forall>t' e'. as_future (snd c) = Some (t', RejectedWith e') \<longrightarrow> t \<le> t'))"
proof -
  let ?fs = "map (as_future \<circ> snd) rs"
  from assms obtain ks where
    ks: "start_filter a names = Inr ks" and
    rs: "start_map a ks = Inr rs" and
    agg: "agg = Promise_all ?fs"
    by (auto simp: priv_start_def split: sum.splits)
  have calls: "map fst rs = filter (\<lambda>sec. sec \<noteq> mainAppName \<and> has_function a ''start'' sec) names"
    using start_filter_eq [OF ks] start_map_calls [OF rs] by simp
  have ful: "(\<exists>t vs. agg = Some (t, FulfilledWith vs)) \<longleftrightarrow>
            (\<forall>c \<in> set rs. \<exists>t v. as_future (snd c) = Some (t, FulfilledWith v))"
    unfolding agg Promise_all_fulfilled_iff by simp
  have vals: "length vs = length rs \<and>
            (\<forall>k < length rs. \<exists>tk. as_future (snd (rs ! k)) = Some (tk, FulfilledWith (vs ! k)) \<and> tk \<le> t)"
    if "agg = Some (t, FulfilledWith vs)" for t vs
  proof -
    from that agg have "all_fulfilled ?fs = Some (t, vs)"
      by (auto simp: Promise_all_def split: option.splits)
    from all_fulfilled_Some [OF this] show ?thesis by simp
  qed
  have rej: "(\<exists>t e. agg = Some (t, RejectedWith e)) \<longleftrightarrow>
            (\<exists>c \<in> set rs. \<exists>t e. as_future (snd c) = Some (t, RejectedWith e))"
    unfolding agg Promise_all_rejected_iff by simp
  have fst: "(\<exists>c \<in> set rs. as_future (snd c) = Some (t, RejectedWith e)) \<and>
            (\<forall>c \<in> set rs. \<forall>t' e'. as_future (snd c) = Some (t', RejectedWith e') \<longrightarrow> t \<le> t')"
    if "agg = Some (t, RejectedWith e)" for t e
  proof -
    from that agg have "first_rejection ?fs = Some (t, e)"
      by (simp add: Promise_all_rejected)
    from first_rejection_Some [OF this] have
      m: "Some (t, RejectedWith e) \<in> (\<lambda>c. as_future (snd c)) ` set rs" and
      least: "\<forall>t' e'. Some (t', RejectedWith e') \<in> (\<lambda>c. as_future (snd c)) ` set rs \<longrightarrow> t \<le> t'"
      by (simp_all add: comp_def)
    from m obtain c where c: "c \<in> set rs" "as_future (snd c) = Some (t, RejectedWith e)"
      by auto
    have "t \<le> t'" if "c' \<in> set rs" "as_future (snd c') = Some (t', RejectedWith e')" for c' t' e'
    proof -
      from that have "Some (t', RejectedWith e') \<in> (\<lambda>c. as_future (snd c)) ` set rs"
        by (metis image_eqI)
      with least show ?thesis by blast
    qed
    with c show ?thesis by blast
  qed
  have made: "\<forall>c \<in> set rs. \<exists>i f. allModules a (fst c) = Some i \<and> method_of a i ''start'' = Some f
                            \<and> f [] = Returns (snd c)"
    using start_map_calls [OF rs] by blast
  from vals have vals': "\<forall>t vs. agg = Some (t, FulfilledWith vs) \<longrightarrow>
            length vs = length rs \<and>
            (\<forall>k < length rs. \<exists>tk. as_future (snd (rs ! k)) = Some (tk, FulfilledWith (vs ! k)) \<and> tk \<le> t)"
    by blast
  from fst have fst': "\<forall>t e. agg = Some (t, RejectedWith e) \<longrightarrow>
            (\<exists>c \<in> set rs. as_future (snd c) = Some (t, RejectedWith e)) \<and>
            (\<forall>c \<in> set rs. \<forall>t' e'. as_future (snd c) = Some (t', RejectedWith e') \<longrightarrow> t \<le> t')"
    by blast
  show ?thesis
    by (intro conjI) (rule calls made ful vals' rej fst')+
qed

lemma app2_start:
  "priv_start app2 None =
     Inr ([(''db'', Promise (Some (5, FulfilledWith (JStr ''up'')))),
           (''cache'', Promise (Some (3, RejectedWith (JStr ''boom'')))),
           (''slow'', Promise None)],
          Some (3, RejectedWith (JStr ''boom'')))"
  by (simp add: priv_start_def app2_def app0_def mainAppName_def method_of_def obj_of_def
      settles_after_def hangs_def Promise_all_def)

theorem start_all_or_nothing_witness:
  "priv_start app2 None =
     Inr ([(''db'', Promise (Some (5, FulfilledWith (JStr ''up'')))),
           (''cache'', Promise (Some (3, RejectedWith (JStr ''boom'')))),
           (''slow'', Promise None)],
          Some (3, RejectedWith (JStr ''boom'')))
   \<and> filter (\<lambda>sec. sec \<noteq> mainAppName \<and> has_function app2 ''start'' sec) (modules app2)
       = [''db'', ''cache'', ''slow'']"
proof -
  note h = app2_start
  from start_all_or_nothing [OF h refl] h show ?thesis by simp
qed

subsection \<open>The stop fan-out\<close>

lemma settle_fields:
  "length (slots (settle k out w)) = length (slots w)"
  "calls (settle k out w) = calls w"
  "queue (settle k out w) = queue w"
  by (simp_all add: settle_def)

lemma settle_keeps:
  "slots w ! j = Settled s \<Longrightarrow> slots (settle k out w) ! j = Settled s"
  by (cases "j = k") (auto simp: settle_def)

lemma exec_fields:
  "length (slots (exec a x w)) = length (slots w)"
  "calls (exec a x w) = calls w"
  by (cases "(a, x, w)" rule: exec.cases;
      simp add: tmFunc_def onFulfilled_def onRejected_def resolve_def reject_def settle_fields
        console_error_def uncaught_def Let_def)+

lemma exec_keeps:
  "slots w ! j = Settled s \<Longrightarrow> slots (exec a x w) ! j = Settled s"
  by (cases "(a, x, w)" rule: exec.cases)
    (simp_all add: tmFunc_def onFulfilled_def onRejected_def resolve_def reject_def settle_keeps
        console_error_def uncaught_def Let_def)

lemma exit_if_settled_fields:
  "slots (exit_if_settled w) = slots w"
  "calls (exit_if_settled w) = calls w"
  by (simp_all add: exit_if_settled_def split: promise.splits settled.splits)

lemma run_until_invariant:
  assumes "P w"
    and "\<And>w t x rest. P w \<Longrightarrow> queue w = (t, x) # rest \<Longrightarrow>
           P (exit_if_settled (exec a x (w\<lparr>queue := rest, clock := t\<rparr>)))"
  shows "P (run_until a T w)"
  using assms
proof (induction a T w rule: run_until.induct)
  case (1 a T w)
  note inv = "1.prems"(1) and step = "1.prems"(2)
  show ?case
  proof (cases "queue w")
    case Nil
    with inv show ?thesis by (simp add: run_until.simps)
  next
    case (Cons p rest)
    obtain t x where p: "p = (t, x)" by (cases p)
    from Cons p have q: "queue w = (t, x) # rest" by simp
    show ?thesis
    proof (cases "proc w \<noteq> Running \<or> T < t")
      case True
      with q inv show ?thesis by (simp add: run_until.simps)
    next
      case False
      have "P (run_until a T (exit_if_settled (exec a x (w\<lparr>queue := rest, clock := t\<rparr>))))"
        by (rule "1.IH" [OF Cons p [symmetric] False step [OF inv q] step])
      with q False show ?thesis
        by (simp add: run_until.simps [of a T w])
    qed
  qed
qed

lemma run_until_fields:
  "length (slots (run_until a T w)) = length (slots w) \<and> calls (run_until a T w) = calls w"
  by (rule run_until_invariant [where P = "\<lambda>v. length (slots v) = length (slots w) \<and> calls v = calls w"])
    (simp_all add: exit_if_settled_fields exec_fields)

lemma run_until_keeps:
  assumes "slots w ! j = Settled s"
  shows "slots (run_until a T w) ! j = Settled s"
  by (rule run_until_invariant [where P = "\<lambda>v. slots v ! j = Settled s"])
    (simp_all add: assms exit_if_settled_fields exec_keeps)

lemma allSettled_never_rejected: "allSettled ps \<noteq> Settled (RejectedWith e)"
  by (simp add: allSettled_def)

lemma entries_settled:
  "Pending \<notin> set ps \<Longrightarrow> length (entries ps) = length ps \<and> (\<forall>k < length ps. ps ! k = Settled (entries ps ! k))"
proof (induction ps rule: entries.induct)
  case 1
  then show ?case by simp
next
  case (2 ps)
  then show ?case by simp
next
  case (3 s ps)
  then have ih: "length (entries ps) = length ps" "\<forall>k < length ps. ps ! k = Settled (entries ps ! k)"
    by auto
  show ?case
  proof (intro conjI allI impI)
    show "length (entries (Settled s # ps)) = length (Settled s # ps)" using ih(1) by simp
  next
    fix k assume "k < length (Settled s # ps)"
    with ih(2) show "(Settled s # ps) ! k = Settled (entries (Settled s # ps) ! k)"
      by (cases k) simp_all
  qed
qed

lemma allSettled_fulfilled_iff:
  "allSettled ps = Settled (FulfilledWith rs) \<longleftrightarrow> Pending \<notin> set ps \<and> rs = entries ps"
  by (auto simp: allSettled_def)


lemma executor_effect:
  "length (slots (executor a i f sec w)) = Suc (length (slots w))"
  "j < length (slots w) \<Longrightarrow> slots (executor a i f sec w) ! j = slots w ! j"
  "calls (executor a i f sec w) = calls w @ [sec]"
  by (auto simp: executor_def Let_def setTimeout_def reject_def settle_def nth_append
      split: result.splits retval.splits option.splits prod.splits)

lemma stop_one_effect:
  assumes "stop_one a sec w = (None, w')"
  shows "length (slots w') = Suc (length (slots w))"
    and "\<forall>j < length (slots w). slots w' ! j = slots w ! j"
    and "calls w' = calls w @ (if has_function a ''stop'' sec then [sec] else [])"
    and "\<not> has_function a ''stop'' sec \<longrightarrow>
           slots w' ! length (slots w) = Settled (FulfilledWith (JStr ''stop MODULE_FUNCTION_NOT_FOUND''))"
  using assms
  by (auto simp: stop_one_def has_function_def executor_effect nth_append
      split: option.splits)

lemma stop_each_effect:
  assumes "stop_each a ns w = (None, w')"
  shows "length (slots w') = length (slots w) + length ns
       \<and> (\<forall>j < length (slots w). slots w' ! j = slots w ! j)
       \<and> calls w' = calls w @ filter (has_function a ''stop'') ns
       \<and> (\<forall>k < length ns. \<not> has_function a ''stop'' (ns ! k) \<longrightarrow>
            slots w' ! (length (slots w) + k) =
              Settled (FulfilledWith (JStr ''stop MODULE_FUNCTION_NOT_FOUND'')))"
  using assms
proof (induction ns arbitrary: w)
  case Nil
  then show ?case by simp
next
  case (Cons sec rest)
  from Cons.prems obtain w1 where
    one: "stop_one a sec w = (None, w1)" and
    each: "stop_each a rest w1 = (None, w')"
    by (auto split: prod.splits option.splits)
  note o = stop_one_effect [OF one]
  from Cons.IH [OF each] have
    len: "length (slots w') = length (slots w1) + length rest" and
    old: "\<forall>j < length (slots w1). slots w' ! j = slots w1 ! j" and
    cal: "calls w' = calls w1 @ filter (has_function a ''stop'') rest" and
    nos: "\<forall>k < length rest. \<not> has_function a ''stop'' (rest ! k) \<longrightarrow>
            slots w' ! (length (slots w1) + k) =
              Settled (FulfilledWith (JStr ''stop MODULE_FUNCTION_NOT_FOUND''))"
    by auto
  have "slots w' ! (length (slots w) + k) =
              Settled (FulfilledWith (JStr ''stop MODULE_FUNCTION_NOT_FOUND''))"
    if k: "k < length (sec # rest)" and n: "\<not> has_function a ''stop'' ((sec # rest) ! k)" for k
  proof (cases k)
    case 0
    with n o(4) have "slots w1 ! length (slots w) =
        Settled (FulfilledWith (JStr ''stop MODULE_FUNCTION_NOT_FOUND''))" by simp
    with old o(1) 0 show ?thesis by simp
  next
    case (Suc m)
    with k n nos o(1) show ?thesis by simp
  qed
  with len old cal o(1,2,3) show ?case by auto
qed


text \<open>
  C5. Under the same conditions, the slot of a listed name whose instance has no
  \<open>stop\<close> function is fulfilled with \<open>'stop MODULE_FUNCTION_NOT_FOUND'\<close> when
  \<open>_stop\<close> returns and stays so at every later time.
\<close>

theorem stop_without_capability:
  assumes "priv_stop a mods w0 = (None, w)" and "slots w0 = []"
    and "names = filter (\<lambda>sec. sec \<noteq> mainAppName) (case mods of Some ms \<Rightarrow> ms | None \<Rightarrow> modules a)"
    and "k < length names" and "\<not> has_function a ''stop'' (names ! k)"
  shows "\<forall>T. slots (run_until a T w) ! k =
               Settled (FulfilledWith (JStr ''stop MODULE_FUNCTION_NOT_FOUND''))"
proof
  fix T
  from assms have each: "stop_each a names w0 = (None, w)" by (simp add: priv_stop_def)
  from stop_each_effect [OF each] assms(2,4,5) have
    "slots w ! k = Settled (FulfilledWith (JStr ''stop MODULE_FUNCTION_NOT_FOUND''))"
    by simp
  then show "slots (run_until a T w) ! k =
               Settled (FulfilledWith (JStr ''stop MODULE_FUNCTION_NOT_FOUND''))"
    by (rule run_until_keeps)
qed

lemmas fanout_defs = priv_stop_def stop_one_def executor_def setTimeout_def timer_delay_def
  method_of_def obj_of_def hangs_def settles_after_def Let_def mainAppName_def world0_def
  reject_def resolve_def settle_def

lemma app3_stop:
  "priv_stop app3 None world0 =
     (None, \<lparr> clock = 0,
               queue = [(2000, TimerTask 0 (TmFunc 0 ''db'' 2000)),
                        (3000, Reaction 2 ''cache'' 5000 (FulfilledWith (JStr ''flushed''))),
                        (5000, TimerTask 1 (TmFunc 2 ''cache'' 5000))],
               handles = 2,
               slots = [Pending, Settled (FulfilledWith (JStr ''stop MODULE_FUNCTION_NOT_FOUND'')), Pending],
               console = [], calls = [''db'', ''cache''], proc = Running, sigint = 0,
               exitOnSettle = False \<rparr>)"
  by (simp add: fanout_defs app3_def app0_def)


lemma digits_2000: "string_of_nat 2000 = ''2000''"
  by code_simp

lemmas timeline_defs = run_until.simps exit_if_settled_def tmFunc_def console_error_def uncaught_def
  onFulfilled_def onRejected_def resolve_def reject_def settle_def aggregate_def allSettled_def
  digits_2000

text \<open>
  C3. In \<open>app3\<close> the timers are armed with 2000 ms for \<open>db\<close>, which declares no
  timeout, and with the declared 5000 ms for \<open>cache\<close>. When the timer of \<open>db\<close>
  fires, its message naming the module and the duration is logged, but the slot of
  \<open>db\<close> is not rejected: \<open>this.throwError\<close> is not a function on the timer's
  receiver, the TypeError leaves the callback uncaught, and the settlement of
  \<open>cache\<close> at 3000 ms is never handled.
\<close>

theorem stop_timeout_not_rejected:
  "fst (priv_stop app3 None world0) = None
   \<and> queue (snd (priv_stop app3 None world0)) =
       [(2000, TimerTask 0 (TmFunc 0 ''db'' 2000)),
        (3000, Reaction 2 ''cache'' 5000 (FulfilledWith (JStr ''flushed''))),
        (5000, TimerTask 1 (TmFunc 2 ''cache'' 5000))]
   \<and> slots (run_until app3 10000 (snd (priv_stop app3 None world0))) =
       [Pending, Settled (FulfilledWith (JStr ''stop MODULE_FUNCTION_NOT_FOUND'')), Pending]
   \<and> console (run_until app3 10000 (snd (priv_stop app3 None world0))) =
       [[JStr (''Stopping of db timed out after 2000 ms!'' @ newline)]]
   \<and> proc (run_until app3 10000 (snd (priv_stop app3 None world0))) =
       Crashed (JErr TypeError ''this.throwError is not a function'' None)"
  by (simp add: app3_stop timeline_defs)

lemma app4_stop:
  "priv_stop app4 None world0 =
     (None, \<lparr> clock = 0,
               queue = [(10, Reaction 0 ''db'' 2000 (FulfilledWith (JStr ''ok''))),
                        (2000, TimerTask 0 (TmFunc 0 ''db'' 2000))],
               handles = 1, slots = [Pending],
               console = [], calls = [''db''], proc = Running, sigint = 0,
               exitOnSettle = False \<rparr>)"
  by (simp add: fanout_defs app4_def app0_def)

text \<open>
  C4. In \<open>app4\<close> the module's \<open>stop()\<close> is fulfilled after 10 ms and its slot with
  it, but \<open>clearTimeout(tmFunc)\<close> is given the callback, not the handle, so the timer
  stays armed: at 2000 ms the timeout message for the stopped module is logged and the
  callback throws.
\<close>

theorem stop_timer_not_cleared:
  "slots (run_until app4 10 (snd (priv_stop app4 None world0))) = [Settled (FulfilledWith (JStr ''ok''))]
   \<and> queue (run_until app4 10 (snd (priv_stop app4 None world0))) =
       [(2000, TimerTask 0 (TmFunc 0 ''db'' 2000))]
   \<and> console (run_until app4 10 (snd (priv_stop app4 None world0))) = []
   \<and> slots (run_until app4 2000 (snd (priv_stop app4 None world0))) = [Settled (FulfilledWith (JStr ''ok''))]
   \<and> console (run_until app4 2000 (snd (priv_stop app4 None world0))) =
       [[JStr (''Stopping of db timed out after 2000 ms!'' @ newline)]]
   \<and> proc (run_until app4 2000 (snd (priv_stop app4 None world0))) =
       Crashed (JErr TypeError ''this.throwError is not a function'' None)"
  by (simp add: app4_stop timeline_defs)

lemma app5_stop:
  "priv_stop app5 None world0 =
     (None, \<lparr> clock = 0,
               queue = [(10, Reaction 0 ''db'' 2000 (RejectedWith (JStr ''boom''))),
                        (2000, TimerTask 0 (TmFunc 0 ''db'' 2000))],
               handles = 1, slots = [Pending],
               console = [], calls = [''db''], proc = Running, sigint = 0,
               exitOnSettle = False \<rparr>)"
  by (simp add: fanout_defs app5_def app0_def)

text \<open>
  C2. The code computes the opposite of the stated disposition: when every entry is
  fulfilled (also when there is none) \<open>find\<close> gives undefined and the exit code is 1;
  when an entry is rejected \<open>find\<close> gives that entry and the exit code is 0. So the
  interrupt handler ends the process with 1 after the clean stop of \<open>app4\<close> and with 0
  after the failed stop of \<open>app5\<close>.
\<close>

theorem exit_code_inverted:
  "exit_code [FulfilledWith (JStr ''ok'')] = 1
   \<and> exit_code [FulfilledWith (JStr ''ok''), RejectedWith (JStr ''boom'')] = 0
   \<and> exit_code [] = 1
   \<and> proc (run_until app4 2000 (signalInterrupt app4 world0)) = Exited 1
   \<and> proc (run_until app5 2000 (signalInterrupt app5 world0)) = Exited 0"
  by (simp add: signalInterrupt_def stop_def app4_stop [unfolded world0_def]
      app5_stop [unfolded world0_def] world0_def timeline_defs exit_code_def successExit_def)

theorem stop_without_capability_witness:
  "\<exists>w. priv_stop app3 None world0 = (None, w) \<and> slots world0 = []
      \<and> (1::nat) < length [''db'', ''log'', ''cache'']
      \<and> \<not> has_function app3 ''stop'' ([''db'', ''log'', ''cache''] ! 1)
      \<and> (\<forall>T. slots (run_until app3 T w) ! 1 =
               Settled (FulfilledWith (JStr ''stop MODULE_FUNCTION_NOT_FOUND'')))"
proof -
  obtain w where h: "priv_stop app3 None world0 = (None, w)" by (simp add: app3_stop)
  have s: "slots world0 = []" by (simp add: world0_def)
  have n: "filter (\<lambda>sec. sec \<noteq> mainAppName) (case None of Some ms \<Rightarrow> ms | None \<Rightarrow> modules app3)
             = [''db'', ''log'', ''cache'']"
    by (simp add: app3_def app0_def mainAppName_def)
  have k: "(1::nat) < length [''db'', ''log'', ''cache'']" by simp
  have f: "\<not> has_function app3 ''stop'' ([''db'', ''log'', ''cache''] ! 1)"
    by (simp add: has_function_def app3_def app0_def method_of_def obj_of_def)
  from stop_without_capability [OF h s n [symmetric] k f] h s k f show ?thesis by blast
qed

subsection \<open>The stop fan-out: every call is made and waited for\<close>

lemma runs_before_le: "runs_before e x \<Longrightarrow> fst e \<le> fst x"
  by (cases "(e, x)" rule: runs_before.cases) auto

lemma not_runs_before_le: "\<not> runs_before e x \<Longrightarrow> fst x \<le> fst e"
  by (cases "(e, x)" rule: runs_before.cases) auto

lemma enqueue_set: "set (enqueue e q) = insert e (set q)"
  by (induction q) auto

lemma enqueue_sorted: "sorted (map fst q) \<Longrightarrow> sorted (map fst (enqueue e q))"
proof (induction q)
  case Nil
  then show ?case by simp
next
  case (Cons x xs)
  show ?case
  proof (cases "runs_before e x")
    case True
    from runs_before_le [OF True] Cons.prems show ?thesis
      using True by (auto simp: order_trans)
  next
    case False
    from not_runs_before_le [OF False] Cons show ?thesis
      using False by (auto simp: enqueue_set)
  qed
qed

lemma exec_reaction_slots:
  "slots (exec a (Reaction k sec tm out) w) = slots (settle k out w)"
  by (cases out)
    (simp_all add: onFulfilled_def onRejected_def resolve_def reject_def settle_def
      console_error_def)

lemma exec_reaction_proc:
  "proc (exec a (Reaction k sec tm out) w) = proc w"
  "exitOnSettle (exec a (Reaction k sec tm out) w) = exitOnSettle w"
  by (cases out;
      simp add: onFulfilled_def onRejected_def resolve_def reject_def settle_def
        console_error_def)+

lemma exec_untargeted:
  "\<not> targets x k \<Longrightarrow> slots (exec a x w) ! k = slots w ! k"
proof (cases x)
  case (TimerTask h cb)
  then show ?thesis
    by (cases cb) (simp add: tmFunc_def console_error_def uncaught_def Let_def)
next
  case (Reaction k' sec tm out)
  assume "\<not> targets x k"
  with Reaction have "k' \<noteq> k" by simp
  with Reaction show ?thesis
    by (simp add: exec_reaction_slots settle_def)
qed

lemma run_until_invariant_due:
  assumes "P w"
    and "\<And>w t x rest. P w \<Longrightarrow> queue w = (t, x) # rest \<Longrightarrow> t \<le> T \<Longrightarrow> proc w = Running \<Longrightarrow>
           P (exit_if_settled (exec a x (w\<lparr>queue := rest, clock := t\<rparr>)))"
  shows "P (run_until a T w)"
  using assms
proof (induction a T w rule: run_until.induct)
  case (1 a T w)
  note inv = "1.prems"(1) and step = "1.prems"(2)
  show ?case
  proof (cases "queue w")
    case Nil
    with inv show ?thesis by (simp add: run_until.simps)
  next
    case (Cons p rest)
    obtain t x where p: "p = (t, x)" by (cases p)
    from Cons p have q: "queue w = (t, x) # rest" by simp
    show ?thesis
    proof (cases "proc w \<noteq> Running \<or> T < t")
      case True
      with q inv show ?thesis by (simp add: run_until.simps)
    next
      case False
      then have due: "t \<le> T" "proc w = Running" by auto
      have "P (run_until a T (exit_if_settled (exec a x (w\<lparr>queue := rest, clock := t\<rparr>))))"
        by (rule "1.IH" [OF Cons p [symmetric] False step [OF inv q due] step])
      with q False show ?thesis
        by (simp add: run_until.simps [of a T w])
    qed
  qed
qed

lemma run_until_compose:
  "T' \<le> T \<Longrightarrow> run_until a T (run_until a T' w) = run_until a T w"
proof (induction a T' w rule: run_until.induct)
  case (1 a T' w)
  show ?case
  proof (cases "queue w")
    case Nil
    then show ?thesis by (simp add: run_until.simps [of a T' w])
  next
    case (Cons p rest)
    obtain t x where p: "p = (t, x)" by (cases p)
    from Cons p have q: "queue w = (t, x) # rest" by simp
    show ?thesis
    proof (cases "proc w \<noteq> Running \<or> T' < t")
      case True
      with q show ?thesis by (simp add: run_until.simps [of a T' w])
    next
      case False
      with "1.prems" have F: "\<not> (proc w \<noteq> Running \<or> T < t)" by auto
      from "1.IH" [OF Cons p [symmetric] False "1.prems"] q False F show ?thesis
        by (simp add: run_until.simps [of a T' w] run_until.simps [of a T w])
    qed
  qed
qed

lemma run_until_done:
  "proc (run_until a T w) = Running \<Longrightarrow> sorted (map fst (queue w)) \<Longrightarrow>
     \<forall>e \<in> set (queue (run_until a T w)). T < fst e"
proof (induction a T w rule: run_until.induct)
  case (1 a T w)
  show ?case
  proof (cases "queue w")
    case Nil
    then show ?thesis by (simp add: run_until.simps [of a T w])
  next
    case (Cons p rest)
    obtain t x where p: "p = (t, x)" by (cases p)
    from Cons p have q: "queue w = (t, x) # rest" by simp
    show ?thesis
    proof (cases "proc w \<noteq> Running \<or> T < t")
      case True
      with q have same: "run_until a T w = w" by (simp add: run_until.simps [of a T w])
      with "1.prems"(1) True have "T < t" by simp
      with "1.prems"(2) q same show ?thesis by auto
    next
      case False
      let ?v = "exit_if_settled (exec a x (w\<lparr>queue := rest, clock := t\<rparr>))"
      from q False have nxt: "run_until a T w = run_until a T ?v"
        by (simp add: run_until.simps [of a T w])
      have "queue ?v = rest" by (simp add: queue_exit_if_settled queue_exec)
      with "1.prems"(2) q have "sorted (map fst (queue ?v))" by simp
      from "1.IH" [OF Cons p [symmetric] False _ this] "1.prems"(1) nxt show ?thesis by simp
    qed
  qed
qed


lemma stays_pending:
  assumes "slots w ! k = Pending"
    and "\<forall>e \<in> set (queue w). targets (snd e) k \<longrightarrow> T < fst e"
  shows "slots (run_until a T w) ! k = Pending"
proof -
  let ?P = "\<lambda>v. slots v ! k = Pending \<and> (\<forall>e \<in> set (queue v). targets (snd e) k \<longrightarrow> T < fst e)"
  have "?P (run_until a T w)"
  proof (rule run_until_invariant_due [where P = ?P])
    show "?P w" using assms by simp
  next
    fix v :: world and t x rest
    assume P: "?P v" and q: "queue v = (t, x) # rest" and due: "t \<le> T"
    from P q due have nt: "\<not> targets x k" by auto
    have "slots (exit_if_settled (exec a x (v\<lparr>queue := rest, clock := t\<rparr>))) ! k = slots v ! k"
      using exec_untargeted [OF nt, of a "v\<lparr>queue := rest, clock := t\<rparr>"]
      by (simp add: exit_if_settled_fields)
    moreover have "queue (exit_if_settled (exec a x (v\<lparr>queue := rest, clock := t\<rparr>))) = rest"
      by (simp add: queue_exit_if_settled queue_exec)
    ultimately show "?P (exit_if_settled (exec a x (v\<lparr>queue := rest, clock := t\<rparr>)))"
      using P q by auto
  qed
  then show ?thesis by simp
qed

lemma settling_step:
  assumes P: "settling k d out v" and q: "queue v = (t, x) # rest" and due: "t \<le> d"
  shows "settling k d out (exit_if_settled (exec a x (v\<lparr>queue := rest, clock := t\<rparr>)))"
proof -
  let ?v = "v\<lparr>queue := rest, clock := t\<rparr>"
  let ?n = "exit_if_settled (exec a x ?v)"
  from P have k: "k < length (slots v)" and pr: "proc v = Running" and ne: "\<not> exitOnSettle v"
    and so: "sorted (map fst (queue v))"
    and ti: "\<forall>e \<in> set (queue v). is_timer_task (snd e) \<longrightarrow> d < fst e"
    and un: "\<forall>e \<in> set (queue v). targets (snd e) k \<longrightarrow> outcome_of (snd e) = Some out"
    and sl: "slots v ! k = Settled out
         \<or> (slots v ! k = Pending \<and> (\<exists>e \<in> set (queue v). fst e = d \<and> targets (snd e) k))"
    unfolding settling_def by blast+
  from ti q due have "\<not> is_timer_task x" by auto
  then obtain k' s' tm' o' where x: "x = Reaction k' s' tm' o'" by (cases x) auto
  have qn: "queue ?n = rest" by (simp add: queue_exit_if_settled queue_exec)
  have pe: "proc (exec a x ?v) = Running" "\<not> exitOnSettle (exec a x ?v)"
    using pr ne x by (simp_all add: exec_reaction_proc)
  then have n: "?n = exec a x ?v" by (simp add: exit_if_settled_def)
  have "slots ?n = slots (exec a x ?v)" by (simp only: n)
  also have "\<dots> = slots (settle k' o' ?v)" by (simp only: x exec_reaction_slots)
  also have "\<dots> = slots (settle k' o' v)" by (simp add: settle_def)
  finally have sn: "slots ?n = slots (settle k' o' v)" .
  have slot: "slots ?n ! k = Settled out
          \<or> (slots ?n ! k = Pending \<and> (\<exists>e \<in> set rest. fst e = d \<and> targets (snd e) k))"
  proof (cases "k' = k")
    case True
    with un q x have "o' = out" by simp
    with True k sl show ?thesis by (auto simp: sn settle_def)
  next
    case False
    then have same: "slots ?n ! k = slots v ! k" by (simp add: sn settle_def)
    from False x q have "(\<exists>e \<in> set (queue v). fst e = d \<and> targets (snd e) k) \<longrightarrow>
        (\<exists>e \<in> set rest. fst e = d \<and> targets (snd e) k)" by auto
    with sl same show ?thesis by auto
  qed
  have len: "k < length (slots ?n)" using k by (simp add: sn settle_fields)
  from so q have r1: "sorted (map fst rest)" by simp
  from ti q have r2: "\<forall>e \<in> set rest. is_timer_task (snd e) \<longrightarrow> d < fst e" by simp
  from un q have r3: "\<forall>e \<in> set rest. targets (snd e) k \<longrightarrow> outcome_of (snd e) = Some out" by simp
  have pn: "proc ?n = Running" "\<not> exitOnSettle ?n" using pe unfolding n by simp_all
  show ?thesis
    unfolding settling_def qn
    by (intro conjI) (rule len pn r1 r2 r3 slot)+
qed

lemma settles_at:
  assumes "settling k d out w" and "slots w ! k = Pending"
  shows "slots (run_until a d w) ! k = Settled out"
proof -
  have P: "settling k d out (run_until a d w)"
    by (rule run_until_invariant_due [where P = "settling k d out"])
      (rule assms(1), rule settling_step)
  then have "proc (run_until a d w) = Running" by (simp add: settling_def)
  moreover from assms(1) have "sorted (map fst (queue w))" by (simp add: settling_def)
  ultimately have "\<forall>e \<in> set (queue (run_until a d w)). d < fst e"
    by (rule run_until_done)
  then have "\<not> (\<exists>e \<in> set (queue (run_until a d w)). fst e = d \<and> targets (snd e) k)"
    by auto
  with P show ?thesis unfolding settling_def by blast
qed


lemmas stop_one_unfold = stop_one_def executor_def stop_call_def stop_tm_def setTimeout_def
  Let_def reject_def settle_def

lemma stop_one_returns:
  "fst (stop_one a sec w) = None \<longleftrightarrow> allModules a sec \<noteq> None"
  by (auto simp: stop_one_def split: option.splits)

lemma stop_one_process:
  assumes "stop_one a sec w0 = (None, w1)"
  shows "clock w1 = clock w0 \<and> proc w1 = proc w0 \<and> exitOnSettle w1 = exitOnSettle w0"
  using assms
  by (auto simp: stop_one_unfold split: option.splits result.splits retval.splits)

lemma stop_one_sorted:
  assumes "stop_one a sec w0 = (None, w1)" and "sorted (map fst (queue w0))"
  shows "sorted (map fst (queue w1))"
  using assms
  by (auto simp: stop_one_unfold enqueue_sorted split: option.splits result.splits retval.splits)

lemma stop_one_queue_mono:
  assumes "stop_one a sec w0 = (None, w1)"
  shows "set (queue w0) \<subseteq> set (queue w1)"
  using assms
  by (auto simp: stop_one_unfold enqueue_set split: option.splits result.splits retval.splits)

lemma stop_one_slot:
  assumes "stop_one a sec w0 = (None, w1)"
  shows "slots w1 ! length (slots w0) = slot_init (stop_call a sec)"
  using assms
  by (auto simp: stop_one_unfold nth_append split: option.splits result.splits retval.splits)

lemma stop_one_reaction:
  assumes "stop_one a sec w0 = (None, w1)"
    and "stop_call a sec = Some (Returns (Promise (Some (d, out))))"
  shows "\<exists>e \<in> set (queue w1). fst e = clock w0 + d \<and> targets (snd e) (length (slots w0))"
  using assms
  by (auto simp: stop_one_unfold enqueue_set split: option.splits result.splits retval.splits)

lemma stop_one_queue:
  assumes "stop_one a sec w0 = (None, w1)" and "e \<in> set (queue w1)"
  shows "e \<in> set (queue w0)
       \<or> (is_timer_task (snd e) \<and> stop_call a sec \<noteq> None
           \<and> fst e = clock w0 + timer_delay (stop_tm a sec))
       \<or> (\<exists>d out. targets (snd e) (length (slots w0))
             \<and> stop_call a sec = Some (Returns (Promise (Some (d, out))))
             \<and> fst e = clock w0 + d \<and> outcome_of (snd e) = Some out)"
  using assms
  by (auto simp: stop_one_unfold enqueue_set split: option.splits result.splits retval.splits)


lemma stop_each_returns:
  "fst (stop_each a ns w) = None \<longleftrightarrow> (\<forall>sec \<in> set ns. allModules a sec \<noteq> None)"
proof (induction ns arbitrary: w)
  case Nil
  show ?case by simp
next
  case (Cons sec rest)
  obtain r1 w1 where one: "stop_one a sec w = (r1, w1)" by (cases "stop_one a sec w")
  with stop_one_returns [of a sec w] have r: "r1 = None \<longleftrightarrow> allModules a sec \<noteq> None" by simp
  show ?case
  proof (cases r1)
    case None
    with one Cons.IH [of w1] r show ?thesis by simp
  next
    case (Some e)
    with one r show ?thesis by simp
  qed
qed

lemma stop_each_world:
  assumes "stop_each a ns w0 = (None, w)"
  shows "clock w = clock w0 \<and> proc w = proc w0 \<and> exitOnSettle w = exitOnSettle w0
       \<and> set (queue w0) \<subseteq> set (queue w)
       \<and> (sorted (map fst (queue w0)) \<longrightarrow> sorted (map fst (queue w)))"
  using assms
proof (induction ns arbitrary: w0)
  case Nil
  then show ?case by simp
next
  case (Cons sec rest)
  from Cons.prems obtain w1 where
    one: "stop_one a sec w0 = (None, w1)" and
    each: "stop_each a rest w1 = (None, w)"
    by (auto split: prod.splits option.splits)
  from stop_one_process [OF one] stop_one_queue_mono [OF one] stop_one_sorted [OF one]
    Cons.IH [OF each]
  show ?case by auto
qed

lemma stop_each_slot:
  assumes "stop_each a ns w0 = (None, w)" and "j < length ns"
  shows "slots w ! (length (slots w0) + j) = slot_init (stop_call a (ns ! j))"
  using assms
proof (induction ns arbitrary: w0 j)
  case Nil
  then show ?case by simp
next
  case (Cons sec rest)
  from Cons.prems(1) obtain w1 where
    one: "stop_one a sec w0 = (None, w1)" and
    each: "stop_each a rest w1 = (None, w)"
    by (auto split: prod.splits option.splits)
  note len = stop_one_effect(1) [OF one]
  show ?case
  proof (cases j)
    case 0
    from stop_each_effect [OF each] len have
      "slots w ! length (slots w0) = slots w1 ! length (slots w0)" by simp
    with stop_one_slot [OF one] 0 show ?thesis by simp
  next
    case (Suc m)
    with Cons.prems(2) have "m < length rest" by simp
    from Cons.IH [OF each this] len Suc show ?thesis by simp
  qed
qed

lemma stop_each_reaction:
  assumes "stop_each a ns w0 = (None, w)" and "j < length ns"
    and "stop_call a (ns ! j) = Some (Returns (Promise (Some (d, out))))"
  shows "\<exists>e \<in> set (queue w). fst e = clock w0 + d \<and> targets (snd e) (length (slots w0) + j)"
  using assms
proof (induction ns arbitrary: w0 j)
  case Nil
  then show ?case by simp
next
  case (Cons sec rest)
  from Cons.prems(1) obtain w1 where
    one: "stop_one a sec w0 = (None, w1)" and
    each: "stop_each a rest w1 = (None, w)"
    by (auto split: prod.splits option.splits)
  note len = stop_one_effect(1) [OF one]
  from stop_one_process [OF one] have clk: "clock w1 = clock w0" by simp
  show ?case
  proof (cases j)
    case 0
    with Cons.prems(3) have "stop_call a sec = Some (Returns (Promise (Some (d, out))))" by simp
    from stop_one_reaction [OF one this] obtain e where
      e: "e \<in> set (queue w1)" "fst e = clock w0 + d" "targets (snd e) (length (slots w0))"
      by blast
    from stop_each_world [OF each] e(1) have "e \<in> set (queue w)" by auto
    with e 0 show ?thesis by auto
  next
    case (Suc m)
    with Cons.prems(2,3) have "m < length rest"
      "stop_call a (rest ! m) = Some (Returns (Promise (Some (d, out))))" by simp_all
    from Cons.IH [OF each this] len clk Suc show ?thesis by simp
  qed
qed

lemma stop_each_queue:
  assumes "stop_each a ns w0 = (None, w)" and "e \<in> set (queue w)"
  shows "e \<in> set (queue w0)
       \<or> (is_timer_task (snd e)
           \<and> (\<exists>sec \<in> set ns. stop_call a sec \<noteq> None
                 \<and> fst e = clock w0 + timer_delay (stop_tm a sec)))
       \<or> (\<exists>j d out. j < length ns \<and> targets (snd e) (length (slots w0) + j)
             \<and> stop_call a (ns ! j) = Some (Returns (Promise (Some (d, out))))
             \<and> fst e = clock w0 + d \<and> outcome_of (snd e) = Some out)"
  using assms
proof (induction ns arbitrary: w0)
  case Nil
  then show ?case by simp
next
  case (Cons sec rest)
  from Cons.prems(1) obtain w1 where
    one: "stop_one a sec w0 = (None, w1)" and
    each: "stop_each a rest w1 = (None, w)"
    by (auto split: prod.splits option.splits)
  note len = stop_one_effect(1) [OF one]
  from stop_one_process [OF one] have clk: "clock w1 = clock w0" by simp
  from Cons.IH [OF each Cons.prems(2)] consider
    (old) "e \<in> set (queue w1)"
  | (timer) "is_timer_task (snd e)" "\<exists>sec \<in> set rest. stop_call a sec \<noteq> None
                 \<and> fst e = clock w1 + timer_delay (stop_tm a sec)"
  | (react) j d out where "j < length rest" "targets (snd e) (length (slots w1) + j)"
      "stop_call a (rest ! j) = Some (Returns (Promise (Some (d, out))))"
      "fst e = clock w1 + d" "outcome_of (snd e) = Some out"
    by blast
  then show ?case
  proof cases
    case old
    from stop_one_queue [OF one old] consider
      (o) "e \<in> set (queue w0)"
    | (t) "is_timer_task (snd e)" "stop_call a sec \<noteq> None"
        "fst e = clock w0 + timer_delay (stop_tm a sec)"
    | (r) d out where "targets (snd e) (length (slots w0))"
        "stop_call a sec = Some (Returns (Promise (Some (d, out))))"
        "fst e = clock w0 + d" "outcome_of (snd e) = Some out"
      by blast
    then show ?thesis
    proof cases
      case o
      then show ?thesis by simp
    next
      case t
      then show ?thesis by auto
    next
      case r
      then have "0 < length (sec # rest) \<and> targets (snd e) (length (slots w0) + 0)
             \<and> stop_call a ((sec # rest) ! 0) = Some (Returns (Promise (Some (d, out))))
             \<and> fst e = clock w0 + d \<and> outcome_of (snd e) = Some out" by simp
      then show ?thesis by blast
    qed
  next
    case timer
    with clk show ?thesis by auto
  next
    case react
    with len clk have "Suc j < length (sec # rest) \<and> targets (snd e) (length (slots w0) + Suc j)
             \<and> stop_call a ((sec # rest) ! Suc j) = Some (Returns (Promise (Some (d, out))))
             \<and> fst e = clock w0 + d \<and> outcome_of (snd e) = Some out" by simp
    then show ?thesis by blast
  qed
qed


lemma targets_unique: "targets x k \<Longrightarrow> targets x k' \<Longrightarrow> k = k'"
  by (cases x) auto

lemma targets_not_timer: "targets x k \<Longrightarrow> \<not> is_timer_task x"
  by (cases x) auto

lemma pending_aggregate:
  "k < length (slots v) \<Longrightarrow> slots v ! k = Pending \<Longrightarrow> aggregate v = Pending"
  by (auto simp: aggregate_def allSettled_def dest: nth_mem)

text \<open>
  C1. Take \<open>_stop\<close> in a fresh process, with \<open>names\<close> the listed names other than the
  main-app key, every one of them registered. Then \<open>_stop\<close> returns, whatever the
  modules do, and by then \<open>stop()\<close> has been called on every name that has a
  \<open>stop\<close> function, in list order, before any of the returned promises is waited for.
  From then on there is one slot per name and no further call is made. The slot of a name
  whose \<open>stop()\<close> threw or returned no promise is rejected from the start, and stays
  so; the slot of a name without \<open>stop\<close> is fulfilled from the start. The slot of a name
  whose \<open>stop()\<close> returned a promise that never settles stays pending, and the
  aggregate with it. The slot of a name whose \<open>stop()\<close> returned a promise that settles
  after \<open>d\<close> ms is pending before \<open>d\<close>, and the aggregate with it, whatever the other
  slots have become by then: a rejected slot does not settle the aggregate. From \<open>d\<close> on
  the slot holds the outcome of that promise, provided no timeout of the fan-out is due
  by then (C3 is about what happens when one is). Once every \<open>stop()\<close> has ended, and
  before any timeout, the aggregate is fulfilled with the outcome of each name in list
  order, rejected ones included. At no time is the aggregate rejected, and it is fulfilled
  exactly when no slot is pending, then with the entry of each slot in list order.
\<close>

theorem stop_settles_all:
  assumes "\<forall>sec \<in> set names. allModules a sec \<noteq> None"
    and "names = filter (\<lambda>sec. sec \<noteq> mainAppName) (case mods of Some ms \<Rightarrow> ms | None \<Rightarrow> modules a)"
  shows "\<exists>w. priv_stop a mods world0 = (None, w)
     \<and> calls w = filter (has_function a ''stop'') names
     \<and> (\<forall>T. length (slots (run_until a T w)) = length names \<and> calls (run_until a T w) = calls w)
     \<and> (\<forall>k < length names. slot_init (stop_call a (names ! k)) \<noteq> Pending \<longrightarrow>
           (\<forall>T. slots (run_until a T w) ! k = slot_init (stop_call a (names ! k))))
     \<and> (\<forall>k < length names. stop_call a (names ! k) = Some (Returns (Promise None)) \<longrightarrow>
           (\<forall>T. slots (run_until a T w) ! k = Pending \<and> aggregate (run_until a T w) = Pending))
     \<and> (\<forall>k < length names. \<forall>d out.
           stop_call a (names ! k) = Some (Returns (Promise (Some (d, out)))) \<longrightarrow>
           (\<forall>T < d. slots (run_until a T w) ! k = Pending \<and> aggregate (run_until a T w) = Pending)
         \<and> ((\<forall>sec \<in> set names. stop_call a sec \<noteq> None \<longrightarrow> d < timer_delay (stop_tm a sec)) \<longrightarrow>
              (\<forall>T \<ge> d. slots (run_until a T w) ! k = Settled out)))
     \<and> (\<forall>T rs.
           list_all2 (\<lambda>sec r. stop_outcome (stop_call a sec) = Some r
               \<and> stop_time (stop_call a sec) \<le> T
               \<and> (\<forall>sec' \<in> set names. stop_call a sec' \<noteq> None \<longrightarrow>
                     stop_time (stop_call a sec) < timer_delay (stop_tm a sec'))) names rs \<longrightarrow>
           aggregate (run_until a T w) = Settled (FulfilledWith rs))
     \<and> (\<forall>T e. aggregate (run_until a T w) \<noteq> Settled (RejectedWith e))
     \<and> (\<forall>T rs. aggregate (run_until a T w) = Settled (FulfilledWith rs) \<longleftrightarrow>
           Pending \<notin> set (slots (run_until a T w)) \<and> rs = entries (slots (run_until a T w)))
     \<and> (\<forall>T rs. aggregate (run_until a T w) = Settled (FulfilledWith rs) \<longrightarrow>
           length rs = length names \<and>
           (\<forall>k < length names. slots (run_until a T w) ! k = Settled (rs ! k)))"
proof -
  from assms(1) have "fst (stop_each a names world0) = None"
    by (simp add: stop_each_returns)
  then obtain w where each: "stop_each a names world0 = (None, w)"
    by (cases "stop_each a names world0") auto
  then have ret: "priv_stop a mods world0 = (None, w)"
    by (simp add: priv_stop_def assms(2))
  have w0: "slots world0 = []" "calls world0 = []" "queue world0 = []" "clock world0 = 0"
    "proc world0 = Running" "\<not> exitOnSettle world0"
    by (simp_all add: world0_def)
  from stop_each_effect [OF each] w0 have
    len: "length (slots w) = length names" and
    cal: "calls w = filter (has_function a ''stop'') names"
    by simp_all
  from stop_each_world [OF each] w0 have
    proc: "proc w = Running" "\<not> exitOnSettle w" and srt: "sorted (map fst (queue w))"
    by simp_all
  have lenT: "length (slots (run_until a T w)) = length names" for T
    using run_until_fields [of a T w] len by simp
  have fields: "\<forall>T. length (slots (run_until a T w)) = length names
      \<and> calls (run_until a T w) = calls w"
    using run_until_fields [of a _ w] len by simp
  have init: "slots w ! k = slot_init (stop_call a (names ! k))" if "k < length names" for k
    using stop_each_slot [OF each that] w0 by simp
  have queue: "(is_timer_task (snd e)
           \<and> (\<exists>sec \<in> set names. stop_call a sec \<noteq> None \<and> fst e = timer_delay (stop_tm a sec)))
       \<or> (\<exists>j d out. j < length names \<and> targets (snd e) j
             \<and> stop_call a (names ! j) = Some (Returns (Promise (Some (d, out))))
             \<and> fst e = d \<and> outcome_of (snd e) = Some out)"
    if "e \<in> set (queue w)" for e
    using stop_each_queue [OF each that] w0 by simp
  have targeted: "\<exists>out. stop_call a (names ! k) = Some (Returns (Promise (Some (fst e, out))))
      \<and> outcome_of (snd e) = Some out"
    if e: "e \<in> set (queue w)" and t: "targets (snd e) k" for e k
  proof -
    from queue [OF e] targets_not_timer [OF t] obtain j d out where
      j: "targets (snd e) j" "stop_call a (names ! j) = Some (Returns (Promise (Some (d, out))))"
        "fst e = d" "outcome_of (snd e) = Some out"
      by blast
    from targets_unique [OF t j(1)] j show ?thesis by auto
  qed
  have settled: "\<forall>k < length names. slot_init (stop_call a (names ! k)) \<noteq> Pending \<longrightarrow>
           (\<forall>T. slots (run_until a T w) ! k = slot_init (stop_call a (names ! k)))"
  proof (intro allI impI)
    fix k T assume k: "k < length names" and s: "slot_init (stop_call a (names ! k)) \<noteq> Pending"
    then obtain o' where "slot_init (stop_call a (names ! k)) = Settled o'"
      by (cases "slot_init (stop_call a (names ! k))") auto
    with init [OF k] run_until_keeps [of w k o' a T]
    show "slots (run_until a T w) ! k = slot_init (stop_call a (names ! k))" by simp
  qed
  have never: "\<forall>k < length names. stop_call a (names ! k) = Some (Returns (Promise None)) \<longrightarrow>
           (\<forall>T. slots (run_until a T w) ! k = Pending \<and> aggregate (run_until a T w) = Pending)"
  proof (intro allI impI)
    fix k T assume k: "k < length names"
      and c: "stop_call a (names ! k) = Some (Returns (Promise None))"
    from init [OF k] c have p: "slots w ! k = Pending" by simp
    have "\<forall>e \<in> set (queue w). targets (snd e) k \<longrightarrow> T < fst e"
      using targeted c by fastforce
    from stays_pending [OF p this] have "slots (run_until a T w) ! k = Pending" .
    with pending_aggregate [of k "run_until a T w"] k lenT [of T]
    show "slots (run_until a T w) ! k = Pending \<and> aggregate (run_until a T w) = Pending"
      by simp
  qed
  have later: "\<forall>k < length names. \<forall>d out.
           stop_call a (names ! k) = Some (Returns (Promise (Some (d, out)))) \<longrightarrow>
           (\<forall>T < d. slots (run_until a T w) ! k = Pending \<and> aggregate (run_until a T w) = Pending)
         \<and> ((\<forall>sec \<in> set names. stop_call a sec \<noteq> None \<longrightarrow> d < timer_delay (stop_tm a sec)) \<longrightarrow>
              (\<forall>T \<ge> d. slots (run_until a T w) ! k = Settled out))"
  proof (intro allI impI)
    fix k d out assume k: "k < length names"
      and c: "stop_call a (names ! k) = Some (Returns (Promise (Some (d, out))))"
    from init [OF k] c have p: "slots w ! k = Pending" by simp
    have tg: "fst e = d \<and> outcome_of (snd e) = Some out"
      if "e \<in> set (queue w)" "targets (snd e) k" for e
      using targeted [OF that] c by auto
    have before: "\<forall>T < d. slots (run_until a T w) ! k = Pending
        \<and> aggregate (run_until a T w) = Pending"
    proof (intro allI impI)
      fix T assume T: "T < d"
      have "\<forall>e \<in> set (queue w). targets (snd e) k \<longrightarrow> T < fst e"
        using tg T by auto
      from stays_pending [OF p this] have "slots (run_until a T w) ! k = Pending" .
      with pending_aggregate [of k "run_until a T w"] k lenT [of T]
      show "slots (run_until a T w) ! k = Pending \<and> aggregate (run_until a T w) = Pending"
        by simp
    qed
    have after: "\<forall>T \<ge> d. slots (run_until a T w) ! k = Settled out"
      if tm: "\<forall>sec \<in> set names. stop_call a sec \<noteq> None \<longrightarrow> d < timer_delay (stop_tm a sec)"
    proof (intro allI impI)
      fix T assume T: "d \<le> T"
      have t1: "\<forall>e \<in> set (queue w). is_timer_task (snd e) \<longrightarrow> d < fst e"
      proof (intro ballI impI)
        fix e assume e: "e \<in> set (queue w)" and t: "is_timer_task (snd e)"
        from queue [OF e] t targets_not_timer [of "snd e"] obtain sec where
          "sec \<in> set names" "stop_call a sec \<noteq> None" "fst e = timer_delay (stop_tm a sec)"
          by blast
        with tm show "d < fst e" by auto
      qed
      have t2: "\<forall>e \<in> set (queue w). targets (snd e) k \<longrightarrow> outcome_of (snd e) = Some out"
        using tg by auto
      from stop_each_reaction [OF each k c] w0 have
        t3: "\<exists>e \<in> set (queue w). fst e = d \<and> targets (snd e) k" by simp
      have "settling k d out w"
        unfolding settling_def using k len proc srt t1 t2 t3 p by simp
      from settles_at [OF this p] have "slots (run_until a d w) ! k = Settled out" .
      from run_until_keeps [OF this, of a T] run_until_compose [OF T, of a w]
      show "slots (run_until a T w) ! k = Settled out" by simp
    qed
    from before after
    show "(\<forall>T < d. slots (run_until a T w) ! k = Pending \<and> aggregate (run_until a T w) = Pending)
         \<and> ((\<forall>sec \<in> set names. stop_call a sec \<noteq> None \<longrightarrow> d < timer_delay (stop_tm a sec)) \<longrightarrow>
              (\<forall>T \<ge> d. slots (run_until a T w) ! k = Settled out))"
      by blast
  qed
  have norej: "\<forall>T e. aggregate (run_until a T w) \<noteq> Settled (RejectedWith e)"
    by (simp add: aggregate_def allSettled_never_rejected)
  have ful: "\<forall>T rs. aggregate (run_until a T w) = Settled (FulfilledWith rs) \<longleftrightarrow>
           Pending \<notin> set (slots (run_until a T w)) \<and> rs = entries (slots (run_until a T w))"
    by (simp add: aggregate_def allSettled_fulfilled_iff)
  have ent: "\<forall>T rs. aggregate (run_until a T w) = Settled (FulfilledWith rs) \<longrightarrow>
           length rs = length names \<and>
           (\<forall>k < length names. slots (run_until a T w) ! k = Settled (rs ! k))"
  proof (intro allI impI)
    fix T rs assume "aggregate (run_until a T w) = Settled (FulfilledWith rs)"
    with ful have "Pending \<notin> set (slots (run_until a T w))"
      "rs = entries (slots (run_until a T w))" by simp_all
    with entries_settled [of "slots (run_until a T w)"] lenT [of T]
    show "length rs = length names \<and>
           (\<forall>k < length names. slots (run_until a T w) ! k = Settled (rs ! k))" by simp
  qed
  have fin: "\<forall>T rs.
           list_all2 (\<lambda>sec r. stop_outcome (stop_call a sec) = Some r
               \<and> stop_time (stop_call a sec) \<le> T
               \<and> (\<forall>sec' \<in> set names. stop_call a sec' \<noteq> None \<longrightarrow>
                     stop_time (stop_call a sec) < timer_delay (stop_tm a sec'))) names rs \<longrightarrow>
           aggregate (run_until a T w) = Settled (FulfilledWith rs)"
  proof (intro allI impI)
    fix T rs
    assume all: "list_all2 (\<lambda>sec r. stop_outcome (stop_call a sec) = Some r
               \<and> stop_time (stop_call a sec) \<le> T
               \<and> (\<forall>sec' \<in> set names. stop_call a sec' \<noteq> None \<longrightarrow>
                     stop_time (stop_call a sec) < timer_delay (stop_tm a sec'))) names rs"
    then have lr: "length rs = length names" by (simp add: list_all2_lengthD)
    have each_k: "slots (run_until a T w) ! k = Settled (rs ! k)" if k: "k < length names" for k
    proof -
      from all k have o: "stop_outcome (stop_call a (names ! k)) = Some (rs ! k)"
        and t: "stop_time (stop_call a (names ! k)) \<le> T"
        and tm: "\<forall>sec' \<in> set names. stop_call a sec' \<noteq> None \<longrightarrow>
                     stop_time (stop_call a (names ! k)) < timer_delay (stop_tm a sec')"
        by (simp_all add: list_all2_conv_all_nth)
      show ?thesis
      proof (cases "slot_init (stop_call a (names ! k)) = Pending")
        case False
        with settled k have "slots (run_until a T w) ! k = slot_init (stop_call a (names ! k))"
          by blast
        moreover from False o have "slot_init (stop_call a (names ! k)) = Settled (rs ! k)"
          by (cases "stop_call a (names ! k)" rule: stop_outcome.cases) auto
        ultimately show ?thesis by simp
      next
        case True
        with o obtain d where c: "stop_call a (names ! k) = Some (Returns (Promise (Some (d, rs ! k))))"
          by (cases "stop_call a (names ! k)" rule: stop_outcome.cases) auto
        with t tm have "d \<le> T"
          "\<forall>sec \<in> set names. stop_call a sec \<noteq> None \<longrightarrow> d < timer_delay (stop_tm a sec)"
          by simp_all
        with later k c show ?thesis by blast
      qed
    qed
    have np: "Pending \<notin> set (slots (run_until a T w))"
    proof
      assume "Pending \<in> set (slots (run_until a T w))"
      then obtain k where "k < length (slots (run_until a T w))"
        "slots (run_until a T w) ! k = Pending" by (auto simp: in_set_conv_nth)
      with each_k lenT [of T] show False by simp
    qed
    from entries_settled [OF np] lenT [of T] have
      e: "length (entries (slots (run_until a T w))) = length names"
        "\<forall>k < length names. slots (run_until a T w) ! k
            = Settled (entries (slots (run_until a T w)) ! k)"
      by simp_all
    have "entries (slots (run_until a T w)) = rs"
    proof (rule nth_equalityI)
      show "length (entries (slots (run_until a T w))) = length rs" using e(1) lr by simp
    next
      fix k assume "k < length (entries (slots (run_until a T w)))"
      with e(1) have k: "k < length names" by simp
      from e(2) k each_k [OF k] show "entries (slots (run_until a T w)) ! k = rs ! k" by simp
    qed
    with np ful show "aggregate (run_until a T w) = Settled (FulfilledWith rs)" by simp
  qed
  show ?thesis
    by (rule exI [of _ w], intro conjI)
      (rule ret cal fields settled never later fin norej ful ent)+
qed

lemma app6_calls:
  "stop_call app6 ''web'' = Some (Throws (JStr ''bang''))"
  "stop_call app6 ''db'' = Some (Returns (Promise (Some (3, RejectedWith (JStr ''boom'')))))"
  "stop_call app6 ''cache'' =
     Some (Returns (Promise (Some (10, FulfilledWith (JStr ''flushed'')))))"
  "stop_call app6 ''log'' = None"
  "stop_tm app6 ''web'' = 2000" "stop_tm app6 ''db'' = 2000" "stop_tm app6 ''cache'' = 2000"
  by (simp_all add: stop_call_def stop_tm_def app6_def app0_def method_of_def obj_of_def
      throws_bang_def settles_after_def)


theorem stop_settles_all_witness:
  "\<exists>w. priv_stop app6 None world0 = (None, w)
      \<and> calls w = [''web'', ''db'', ''cache'']
      \<and> slots (run_until app6 5 w) ! 1 = Settled (RejectedWith (JStr ''boom''))
      \<and> aggregate (run_until app6 5 w) = Pending
      \<and> aggregate (run_until app6 10 w) =
          Settled (FulfilledWith
            [RejectedWith (JStr ''bang''), RejectedWith (JStr ''boom''),
             FulfilledWith (JStr ''flushed''),
             FulfilledWith (JStr ''stop MODULE_FUNCTION_NOT_FOUND'')])"
proof -
  let ?names = "[''web'', ''db'', ''cache'', ''log'']"
  have reg: "\<forall>sec \<in> set ?names. allModules app6 sec \<noteq> None"
    by (simp add: app6_def app0_def)
  have n: "?names = filter (\<lambda>sec. sec \<noteq> mainAppName)
             (case None of Some ms \<Rightarrow> ms | None \<Rightarrow> modules app6)"
    by (simp add: app6_def app0_def mainAppName_def)
  have f: "filter (has_function app6 ''stop'') ?names = [''web'', ''db'', ''cache'']"
    by (simp add: has_function_def app6_def app0_def method_of_def obj_of_def)
  have td: "timer_delay 2000 = 2000" by (simp add: timer_delay_def)
  show ?thesis
    using stop_settles_all [OF reg n]
    apply (elim exE conjE)
    subgoal premises p for w
    proof -
      note ret = p(1) and cal = p(2) and later = p(6) and fin = p(7)
      have k1: "(1::nat) < length ?names" and k2: "(2::nat) < length ?names" by simp_all
      have c1: "stop_call app6 (?names ! 1)
          = Some (Returns (Promise (Some (3, RejectedWith (JStr ''boom'')))))"
        by (simp add: app6_calls)
      have c2: "stop_call app6 (?names ! 2)
          = Some (Returns (Promise (Some (10, FulfilledWith (JStr ''flushed'')))))"
        by (simp add: app6_calls)
      have late: "\<forall>sec \<in> set ?names. stop_call app6 sec \<noteq> None \<longrightarrow>
                 3 < timer_delay (stop_tm app6 sec)"
        by (simp add: app6_calls td)
      from later [rule_format, OF k1 c1, THEN conjunct2, THEN mp, OF late, rule_format, of 5]
      have s1: "slots (run_until app6 5 w) ! 1 = Settled (RejectedWith (JStr ''boom''))"
        by simp
      from later [rule_format, OF k2 c2, THEN conjunct1, rule_format, of 5]
      have p5: "aggregate (run_until app6 5 w) = Pending"
        by simp
      have l2: "list_all2 (\<lambda>sec r. stop_outcome (stop_call app6 sec) = Some r
               \<and> stop_time (stop_call app6 sec) \<le> 10
               \<and> (\<forall>sec' \<in> set ?names. stop_call app6 sec' \<noteq> None \<longrightarrow>
                     stop_time (stop_call app6 sec) < timer_delay (stop_tm app6 sec'))) ?names
            [RejectedWith (JStr ''bang''), RejectedWith (JStr ''boom''),
             FulfilledWith (JStr ''flushed''),
             FulfilledWith (JStr ''stop MODULE_FUNCTION_NOT_FOUND'')]"
        by (simp add: app6_calls td)
      from fin [rule_format, OF l2] have
        a10: "aggregate (run_until app6 10 w) =
          Settled (FulfilledWith
            [RejectedWith (JStr ''bang''), RejectedWith (JStr ''boom''),
             FulfilledWith (JStr ''flushed''),
             FulfilledWith (JStr ''stop MODULE_FUNCTION_NOT_FOUND'')])" .
      from cal f have c: "calls w = [''web'', ''db'', ''cache'']" by simp
      show ?thesis
        by (rule exI [of _ w], intro conjI) (rule ret c s1 p5 a10)+
    qed
    done
qed

subsection \<open>The main-app entry\<close>

lemma Application_registry:
  assumes "Application cfg dir self = Inr a"
  shows "mainAppName \<in> set (modules a) \<and> allModules a = Map.empty"
proof -
  from assms obtain nm where "name_of_main cfg = Inr nm"
    by (auto simp: Application_def split: sum.splits)
  then have "map_of cfg mainAppName \<noteq> None"
    by (auto simp: name_of_main_def split: option.splits)
  then have "mainAppName \<in> set (map fst cfg)"
    by (simp add: map_of_eq_None_iff)
  moreover from assms have "modules a = map fst cfg" "allModules a = Map.empty"
    by (auto simp: Application_def split: sum.splits)
  ultimately show ?thesis by simp
qed

lemma require_registry:
  assumes "require load a mods conf = (r, a')"
  shows "allModules a' = allModules a"
  using require_each_rest [of load conf _ a r a'] assms by (simp add: require_def)

lemma init_one_self:
  assumes "init_one a sec = (r, a')"
    and "\<forall>n. allModules a n = Some AppSelf \<longrightarrow> n = mainAppName"
  shows "\<forall>n. allModules a' n = Some AppSelf \<longrightarrow> n = mainAppName"
  using assms by (auto simp: init_one_def split: if_splits option.splits sum.splits)

lemma init_each_self:
  assumes "init_each ns a = (r, a')"
    and "\<forall>n. allModules a n = Some AppSelf \<longrightarrow> n = mainAppName"
  shows "\<forall>n. allModules a' n = Some AppSelf \<longrightarrow> n = mainAppName"
  using assms
proof (induction ns arbitrary: a)
  case Nil
  then show ?case by simp
next
  case (Cons sec rest)
  obtain r1 a1 where one: "init_one a sec = (r1, a1)" by (cases "init_one a sec")
  note s = init_one_self [OF one Cons.prems(2)]
  show ?case
  proof (cases r1)
    case None
    with Cons.prems(1) one have "init_each rest a1 = (r, a')" by simp
    from Cons.IH [OF this s] show ?thesis .
  next
    case (Some e)
    with Cons.prems(1) one have "a' = a1" by simp
    with s show ?thesis by simp
  qed
qed

lemma init_one_main:
  assumes "init_one a sec = (None, a')"
    and "sec = mainAppName \<or> allModules a mainAppName = Some AppSelf"
  shows "allModules a' mainAppName = Some AppSelf"
  using assms by (auto simp: init_one_def split: if_splits option.splits sum.splits)

lemma init_each_main:
  assumes "init_each ns a = (None, a')"
    and "mainAppName \<in> set ns \<or> allModules a mainAppName = Some AppSelf"
  shows "allModules a' mainAppName = Some AppSelf"
  using assms
proof (induction ns arbitrary: a)
  case Nil
  then show ?case by simp
next
  case (Cons sec rest)
  from Cons.prems(1) obtain a1 where
    one: "init_one a sec = (None, a1)" and each: "init_each rest a1 = (None, a')"
    by (auto split: prod.splits option.splits)
  show ?case
  proof (cases "sec = mainAppName \<or> allModules a mainAppName = Some AppSelf")
    case True
    from init_one_main [OF one True] Cons.IH [OF each] show ?thesis by simp
  next
    case False
    with Cons.prems(2) have "mainAppName \<in> set rest" by auto
    with Cons.IH [OF each] show ?thesis by simp
  qed
qed

lemma stop_one_calls:
  assumes "stop_one a sec w = (r, w')"
  shows "calls w' = calls w \<or> calls w' = calls w @ [sec]"
  using assms
  by (auto simp: stop_one_def executor_effect split: option.splits)

lemma stop_each_calls:
  assumes "stop_each a ns w = (r, w')"
  shows "\<exists>new. calls w' = calls w @ new \<and> set new \<subseteq> set ns"
  using assms
proof (induction ns arbitrary: w)
  case Nil
  then show ?case by simp
next
  case (Cons sec rest)
  obtain r1 w1 where one: "stop_one a sec w = (r1, w1)" by (cases "stop_one a sec w")
  from stop_one_calls [OF one] obtain n1 where
    n1: "calls w1 = calls w @ n1" "set n1 \<subseteq> {sec}" by (cases "calls w1 = calls w") auto
  show ?case
  proof (cases r1)
    case None
    with Cons.prems one have "stop_each a rest w1 = (r, w')" by simp
    from Cons.IH [OF this] obtain new where "calls w' = calls w1 @ new" "set new \<subseteq> set rest"
      by blast
    with n1 have "calls w' = calls w @ (n1 @ new) \<and> set (n1 @ new) \<subseteq> set (sec # rest)" by auto
    then show ?thesis by blast
  next
    case (Some e)
    with Cons.prems one have "w' = w1" by simp
    with n1 have "calls w' = calls w @ n1 \<and> set n1 \<subseteq> set (sec # rest)" by auto
    then show ?thesis by blast
  qed
qed

lemma priv_start_names:
  assumes "priv_start a mods = Inr (rs, agg)" and "c \<in> set rs"
  shows "fst c \<noteq> mainAppName \<and> allModules a (fst c) \<noteq> None"
proof -
  from assms(1) obtain ks where
    ks: "start_filter a (case mods of Some ms \<Rightarrow> ms | None \<Rightarrow> modules a) = Inr ks" and
    rs: "start_map a ks = Inr rs"
    by (auto simp: priv_start_def split: sum.splits)
  from start_map_calls [OF rs] assms(2) have "fst c \<in> set ks" "allModules a (fst c) \<noteq> None"
    by (auto simp: image_iff)
  with start_filter_eq [OF ks] show ?thesis by simp
qed


text \<open>
  C10. Let the instance registry bind the Application itself under no name but the
  main-app key, as it does after the constructor and after any number of \<open>require\<close>
  and \<open>init\<close> calls. Then \<open>init\<close> of the main-app key stores the Application
  itself, whatever the class registry holds, and never fails; \<open>init\<close> keeps the
  registry in that shape and, run to its end over a list with the main-app key, leaves
  the key bound to the Application. Every call made by \<open>_start\<close>, \<open>start\<close>,
  \<open>_stop\<close> and \<open>stop\<close>, for any list of names, is to a name other than the
  main-app key whose instance is not the Application.
\<close>

theorem main_app_not_a_module:
  assumes "\<forall>n. allModules a n = Some AppSelf \<longrightarrow> n = mainAppName"
  shows "init_one a mainAppName = (None, a\<lparr>allModules := (allModules a)(mainAppName \<mapsto> AppSelf)\<rparr>)
       \<and> (\<forall>mods r a'. init a mods = (r, a') \<longrightarrow>
            (\<forall>n. allModules a' n = Some AppSelf \<longrightarrow> n = mainAppName))
       \<and> (\<forall>mods a'. init a mods = (None, a')
              \<and> mainAppName \<in> set (case mods of Some ms \<Rightarrow> ms | None \<Rightarrow> modules a) \<longrightarrow>
            allModules a' mainAppName = Some AppSelf)
       \<and> (\<forall>mods rs agg. priv_start a mods = Inr (rs, agg) \<longrightarrow>
            (\<forall>c \<in> set rs. fst c \<noteq> mainAppName \<and> allModules a (fst c) \<noteq> Some AppSelf))
       \<and> (\<forall>w rs agg w'. start a w = (Inr (rs, agg), w') \<longrightarrow>
            (\<forall>c \<in> set rs. fst c \<noteq> mainAppName \<and> allModules a (fst c) \<noteq> Some AppSelf))
       \<and> (\<forall>mods w r w'. priv_stop a mods w = (r, w') \<longrightarrow>
            (\<exists>new. calls w' = calls w @ new \<and>
               (\<forall>sec \<in> set new. sec \<noteq> mainAppName \<and> allModules a sec \<noteq> Some AppSelf)))
       \<and> (\<forall>w r w'. stop a w = (r, w') \<longrightarrow>
            (\<exists>new. calls w' = calls w @ new \<and>
               (\<forall>sec \<in> set new. sec \<noteq> mainAppName \<and> allModules a sec \<noteq> Some AppSelf)))"
proof -
  have bind: "init_one a mainAppName =
      (None, a\<lparr>allModules := (allModules a)(mainAppName \<mapsto> AppSelf)\<rparr>)"
    by (simp add: init_one_def)
  have keep: "\<forall>mods r a'. init a mods = (r, a') \<longrightarrow>
            (\<forall>n. allModules a' n = Some AppSelf \<longrightarrow> n = mainAppName)"
    using init_each_self [OF _ assms] by (simp add: init_def)
  have bound: "\<forall>mods a'. init a mods = (None, a')
              \<and> mainAppName \<in> set (case mods of Some ms \<Rightarrow> ms | None \<Rightarrow> modules a) \<longrightarrow>
            allModules a' mainAppName = Some AppSelf"
    by (auto simp: init_def intro: init_each_main)
  have started: "fst c \<noteq> mainAppName \<and> allModules a (fst c) \<noteq> Some AppSelf"
    if "priv_start a mods = Inr (rs, agg)" "c \<in> set rs" for mods rs agg c
    using priv_start_names [OF that] assms by auto
  then have ps: "\<forall>mods rs agg. priv_start a mods = Inr (rs, agg) \<longrightarrow>
            (\<forall>c \<in> set rs. fst c \<noteq> mainAppName \<and> allModules a (fst c) \<noteq> Some AppSelf)"
    by blast
  then have s: "\<forall>w rs agg w'. start a w = (Inr (rs, agg), w') \<longrightarrow>
            (\<forall>c \<in> set rs. fst c \<noteq> mainAppName \<and> allModules a (fst c) \<noteq> Some AppSelf)"
    by (simp add: start_def)
  have stopped: "\<exists>new. calls w' = calls w @ new \<and>
               (\<forall>sec \<in> set new. sec \<noteq> mainAppName \<and> allModules a sec \<noteq> Some AppSelf)"
    if "priv_stop a mods w = (r, w')" for mods w r w'
  proof -
    let ?ns = "filter (\<lambda>sec. sec \<noteq> mainAppName) (case mods of Some ms \<Rightarrow> ms | None \<Rightarrow> modules a)"
    from that have "stop_each a ?ns w = (r, w')" by (simp add: priv_stop_def)
    from stop_each_calls [OF this] obtain new where
      new: "calls w' = calls w @ new" "set new \<subseteq> set ?ns" by blast
    from new(2) have "\<forall>sec \<in> set new. sec \<noteq> mainAppName" by auto
    with assms have "\<forall>sec \<in> set new. sec \<noteq> mainAppName \<and> allModules a sec \<noteq> Some AppSelf"
      by auto
    with new(1) show ?thesis by blast
  qed
  then have pt: "\<forall>mods w r w'. priv_stop a mods w = (r, w') \<longrightarrow>
            (\<exists>new. calls w' = calls w @ new \<and>
               (\<forall>sec \<in> set new. sec \<noteq> mainAppName \<and> allModules a sec \<noteq> Some AppSelf))"
    by blast
  have t: "\<forall>w r w'. stop a w = (r, w') \<longrightarrow>
            (\<exists>new. calls w' = calls w @ new \<and>
               (\<forall>sec \<in> set new. sec \<noteq> mainAppName \<and> allModules a sec \<noteq> Some AppSelf))"
  proof (intro allI impI)
    fix w r w' assume "stop a w = (r, w')"
    then have "priv_stop a None (w\<lparr>sigint := sigint w - 1\<rparr>) = (r, w')" by (simp add: stop_def)
    from stopped [OF this] show "\<exists>new. calls w' = calls w @ new \<and>
               (\<forall>sec \<in> set new. sec \<noteq> mainAppName \<and> allModules a sec \<noteq> Some AppSelf)"
      by simp
  qed
  show ?thesis by (intro conjI) (rule bind keep bound ps s pt t)+
qed

theorem main_app_not_a_module_witness:
  "init_one app0 mainAppName = (None, app0\<lparr>allModules := [mainAppName \<mapsto> AppSelf]\<rparr>)
   \<and> mainAppName \<in> set (modules app2)
   \<and> allModules app2 mainAppName = Some AppSelf
   \<and> (\<exists>rs agg. priv_start app2 None = Inr (rs, agg)
         \<and> map fst rs = [''db'', ''cache'', ''slow'']
         \<and> (\<forall>c \<in> set rs. fst c \<noteq> mainAppName \<and> allModules app2 (fst c) \<noteq> Some AppSelf))
   \<and> mainAppName \<in> set (modules app4)
   \<and> allModules app4 mainAppName = Some AppSelf
   \<and> (\<exists>new. calls (snd (stop app4 world0)) = calls world0 @ new
         \<and> new = [''db'']
         \<and> (\<forall>sec \<in> set new. sec \<noteq> mainAppName \<and> allModules app4 sec \<noteq> Some AppSelf))"
proof -
  have h0: "\<forall>n. allModules app0 n = Some AppSelf \<longrightarrow> n = mainAppName"
    by (simp add: app0_def)
  have h2: "\<forall>n. allModules app2 n = Some AppSelf \<longrightarrow> n = mainAppName"
    by (simp add: app2_def app0_def mainAppName_def)
  have h4: "\<forall>n. allModules app4 n = Some AppSelf \<longrightarrow> n = mainAppName"
    by (simp add: app4_def app0_def mainAppName_def)
  have m: "mainAppName \<in> set (modules app2)" "allModules app2 mainAppName = Some AppSelf"
    "mainAppName \<in> set (modules app4)" "allModules app4 mainAppName = Some AppSelf"
    by (simp_all add: app2_def app4_def app0_def mainAppName_def)
  have e: "allModules app0 = Map.empty" by (simp add: app0_def)
  from main_app_not_a_module [OF h0, THEN conjunct1] e have
    i: "init_one app0 mainAppName = (None, app0\<lparr>allModules := [mainAppName \<mapsto> AppSelf]\<rparr>)"
    by simp
  obtain rs agg where s: "priv_start app2 None = Inr (rs, agg)"
    and n: "map fst rs = [''db'', ''cache'', ''slow'']"
    by (simp add: app2_start)
  note ps = main_app_not_a_module [OF h2, THEN conjunct2, THEN conjunct2, THEN conjunct2,
      THEN conjunct1, rule_format, OF s]
  then have
    s': "\<forall>c \<in> set rs. fst c \<noteq> mainAppName \<and> allModules app2 (fst c) \<noteq> Some AppSelf"
    by blast
  obtain r w' where t: "stop app4 world0 = (r, w')" by (cases "stop app4 world0")
  note pt = main_app_not_a_module [OF h4, THEN conjunct2, THEN conjunct2, THEN conjunct2,
      THEN conjunct2, THEN conjunct2, THEN conjunct2, rule_format, OF t]
  then obtain new where
    new: "calls w' = calls world0 @ new"
      "\<forall>sec \<in> set new. sec \<noteq> mainAppName \<and> allModules app4 sec \<noteq> Some AppSelf"
    by blast
  have c: "calls (snd (stop app4 world0)) = [''db'']"
    by (simp add: stop_def app4_stop [unfolded world0_def] world0_def)
  with t new(1) have "new = [''db'']" by (simp add: world0_def)
  with t new have t': "\<exists>new. calls (snd (stop app4 world0)) = calls world0 @ new
         \<and> new = [''db'']
         \<and> (\<forall>sec \<in> set new. sec \<noteq> mainAppName \<and> allModules app4 sec \<noteq> Some AppSelf)"
    by simp
  have s'': "\<exists>rs agg. priv_start app2 None = Inr (rs, agg)
         \<and> map fst rs = [''db'', ''cache'', ''slow'']
         \<and> (\<forall>c \<in> set rs. fst c \<noteq> mainAppName \<and> allModules app2 (fst c) \<noteq> Some AppSelf)"
    by (rule exI [of _ rs], rule exI [of _ agg], intro conjI) (rule s n s')+
  show ?thesis by (intro conjI) (rule i m s'' t')+
qed

end
